theory Spec2Isabelle
  imports Complex_Main
begin

section \<open>Chunk paginator (the collection route)\<close>

subsection \<open>Numbers of the platform\<close>

text \<open>
  The page arithmetic of \<open>Collection\<close> runs on the platform's numbers. A number is
  \<open>NaN\<close>, an infinity, or a finite value; the finite values are kept as exact rationals
  (every double is one), and \<open>+0\<close> and \<open>-0\<close> are both \<open>Fin 0\<close>: the code only compares
  them, tests their truthiness and passes them to \<open>slice\<close>, where they behave alike.
  Comparison, \<open>Math.max\<close> and \<open>Math.min\<close> are exact on doubles. Sums and products are
  exact whenever the operands and the result are integers below \<open>2^53\<close>, which is the
  case for every whole page number; for a fractional page the platform rounds and the
  exact value written here may differ from it in the last bit.
\<close>

datatype jsnum = NaN | NegInf | Fin rat | PosInf

fun js_less :: "jsnum \<Rightarrow> jsnum \<Rightarrow> bool" where
  "js_less NaN _ = False"
| "js_less _ NaN = False"
| "js_less PosInf _ = False"
| "js_less _ NegInf = False"
| "js_less NegInf _ = True"
| "js_less _ PosInf = True"
| "js_less (Fin a) (Fin b) = (a < b)"

fun Math_max :: "jsnum \<Rightarrow> jsnum \<Rightarrow> jsnum" where
  "Math_max NaN _ = NaN"
| "Math_max _ NaN = NaN"
| "Math_max a b = (if js_less a b then b else a)"

fun Math_min :: "jsnum \<Rightarrow> jsnum \<Rightarrow> jsnum" where
  "Math_min NaN _ = NaN"
| "Math_min _ NaN = NaN"
| "Math_min a b = (if js_less b a then b else a)"

fun js_neg :: "jsnum \<Rightarrow> jsnum" where
  "js_neg NaN = NaN"
| "js_neg NegInf = PosInf"
| "js_neg PosInf = NegInf"
| "js_neg (Fin a) = Fin (- a)"

fun js_add :: "jsnum \<Rightarrow> jsnum \<Rightarrow> jsnum" where
  "js_add NaN _ = NaN"
| "js_add _ NaN = NaN"
| "js_add PosInf NegInf = NaN"
| "js_add NegInf PosInf = NaN"
| "js_add PosInf _ = PosInf"
| "js_add _ PosInf = PosInf"
| "js_add NegInf _ = NegInf"
| "js_add _ NegInf = NegInf"
| "js_add (Fin a) (Fin b) = Fin (a + b)"

definition js_sub :: "jsnum \<Rightarrow> jsnum \<Rightarrow> jsnum" where
  "js_sub a b = js_add a (js_neg b)"

text \<open>The sign of a number that is not \<open>NaN\<close>: \<open>-1\<close>, \<open>0\<close> or \<open>1\<close>.\<close>

fun js_sgn :: "jsnum \<Rightarrow> int" where
  "js_sgn NaN = 0"
| "js_sgn NegInf = - 1"
| "js_sgn PosInf = 1"
| "js_sgn (Fin a) = (if a < 0 then - 1 else if a = 0 then 0 else 1)"

fun js_mul :: "jsnum \<Rightarrow> jsnum \<Rightarrow> jsnum" where
  "js_mul NaN _ = NaN"
| "js_mul _ NaN = NaN"
| "js_mul (Fin a) (Fin b) = Fin (a * b)"
| "js_mul a b =
     (if js_sgn a * js_sgn b = 0 then NaN
      else if js_sgn a * js_sgn b < 0 then NegInf else PosInf)"

text \<open>\<open>x || d\<close> on numbers: \<open>NaN\<close> and zero are falsy.\<close>

definition js_or :: "jsnum \<Rightarrow> jsnum \<Rightarrow> jsnum" where
  "js_or x d = (if x = NaN \<or> x = Fin 0 then d else x)"

text \<open>
  \<open>Array.prototype.slice(start, end)\<close>: each argument goes through
  \<open>ToIntegerOrInfinity\<close> (\<open>NaN\<close> is 0, a finite value is truncated towards zero), a
  negative one counts from the end, and both are clamped to the array.
\<close>

datatype extint = MinusInf | Whole int | PlusInf

fun ToIntegerOrInfinity :: "jsnum \<Rightarrow> extint" where
  "ToIntegerOrInfinity NaN = Whole 0"
| "ToIntegerOrInfinity NegInf = MinusInf"
| "ToIntegerOrInfinity PosInf = PlusInf"
| "ToIntegerOrInfinity (Fin a) = Whole (if a < 0 then - \<lfloor>- a\<rfloor> else \<lfloor>a\<rfloor>)"

fun relative_index :: "nat \<Rightarrow> extint \<Rightarrow> nat" where
  "relative_index len MinusInf = 0"
| "relative_index len PlusInf = len"
| "relative_index len (Whole i) =
     (if i < 0 then nat (max (int len + i) 0) else min (nat i) len)"

definition slice :: "'a list \<Rightarrow> jsnum \<Rightarrow> jsnum \<Rightarrow> 'a list" where
  "slice xs start end =
     (let k = relative_index (length xs) (ToIntegerOrInfinity start);
          final = relative_index (length xs) (ToIntegerOrInfinity end)
      in take (final - k) (drop k xs))"

subsection \<open>Pages of a chunk\<close>

definition PAGE_SIZE :: nat where
  "PAGE_SIZE = 50"

definition PAGES_PER_CHUNK :: nat where
  "PAGES_PER_CHUNK = 4"

text \<open>
  \<open>totalPages = Math.max(1, Math.ceil(nodes.length / PAGE_SIZE))\<close>, with the page size as
  a parameter (the route passes \<open>PAGE_SIZE\<close>). The quotient of two array lengths is never
  rounded across an integer, so the ceiling of the exact quotient is the platform's.
  The model is the code for a positive page size only.
\<close>

definition totalPages :: "nat \<Rightarrow> 'a list \<Rightarrow> nat" where
  "totalPages pageSize nodes =
     max 1 (nat \<lceil>(of_nat (length nodes) :: rat) / of_nat pageSize\<rceil>)"

definition startIndex :: "nat \<Rightarrow> jsnum \<Rightarrow> jsnum" where
  "startIndex pageSize currentPage =
     js_mul (js_sub currentPage (Fin 1)) (Fin (of_nat pageSize))"

definition endIndex :: "nat \<Rightarrow> jsnum \<Rightarrow> jsnum" where
  "endIndex pageSize currentPage =
     js_add (startIndex pageSize currentPage) (Fin (of_nat pageSize))"

definition visibleNodes :: "nat \<Rightarrow> 'a list \<Rightarrow> jsnum \<Rightarrow> 'a list" where
  "visibleNodes pageSize nodes currentPage =
     slice nodes (startIndex pageSize currentPage) (endIndex pageSize currentPage)"

text \<open>
  \<open>Number\<close> (text to number) and \<open>String\<close> (number to text) are the platform's. The
  definitions below take them as parameters, so every theorem holds whatever the two
  conversions answer.
\<close>

subsection \<open>The query string\<close>

text \<open>
  \<open>new URLSearchParams(location.search)\<close> is the list of name-value pairs of the query
  string, in order. \<open>get\<close> answers the first value of a name, \<open>set\<close> overwrites the
  first pair of the name and removes the others (or appends a pair when the name is
  new), \<open>delete\<close> removes every pair of the name.
\<close>

type_synonym params = "(string \<times> string) list"

definition params_get :: "params \<Rightarrow> string \<Rightarrow> string option" where
  "params_get ps name = map_of ps name"

definition params_delete :: "params \<Rightarrow> string \<Rightarrow> params" where
  "params_delete ps name = filter (\<lambda>(n, _). n \<noteq> name) ps"

fun set_first :: "string \<Rightarrow> string \<Rightarrow> params \<Rightarrow> params" where
  "set_first name v [] = []"
| "set_first name v ((n, x) # ps) =
     (if n = name then (name, v) # params_delete ps name
      else (n, x) # set_first name v ps)"

definition params_set :: "params \<Rightarrow> string \<Rightarrow> string \<Rightarrow> params" where
  "params_set ps name v =
     (if name \<in> fst ` set ps then set_first name v ps else ps @ [(name, v)])"

text \<open>
  \<open>location\<close>: the path and the parsed query string. A URL the component builds,
  \<open>`${location.pathname}?${nextParams.toString()}`\<close>, is kept as the pair of its path
  and its parameters; the serialisation is the platform's.
\<close>

record location =
  pathname :: string
  search :: params

type_synonym href = "string \<times> params"

record pageInfo =
  hasNextPage :: bool
  hasPreviousPage :: bool
  endCursor :: "string option"
  startCursor :: "string option"

text \<open>Truthiness of a value that is \<open>null\<close> or a string: the empty string is falsy.\<close>

definition truthy :: "string option \<Rightarrow> bool" where
  "truthy v = (case v of None \<Rightarrow> False | Some s \<Rightarrow> s \<noteq> [])"

subsection \<open>The derivations of \<open>Collection\<close>\<close>

text \<open>
  \<open>requestedPage = Number(searchParams.get('page') || '1') || 1\<close>; \<open>pageText\<close> is the
  text handed to \<open>Number\<close>.
\<close>

definition pageText :: "location \<Rightarrow> string" where
  "pageText loc =
     (case params_get (search loc) ''page'' of
        None \<Rightarrow> ''1''
      | Some v \<Rightarrow> if v = [] then ''1'' else v)"

definition requestedPage :: "(string \<Rightarrow> jsnum) \<Rightarrow> location \<Rightarrow> jsnum" where
  "requestedPage Number loc = js_or (Number (pageText loc)) (Fin 1)"

definition chunkCursor :: "location \<Rightarrow> string option" where
  "chunkCursor loc = params_get (search loc) ''cursor''"

definition chunkDirection :: "location \<Rightarrow> string option" where
  "chunkDirection loc = params_get (search loc) ''direction''"

text \<open>\<open>Math.min(Math.max(1, requestedPage), totalPages)\<close>\<close>

definition currentPage :: "(string \<Rightarrow> jsnum) \<Rightarrow> location \<Rightarrow> 'a list \<Rightarrow> jsnum" where
  "currentPage Number loc nodes =
     Math_min (Math_max (Fin 1) (requestedPage Number loc))
              (Fin (of_nat (totalPages PAGE_SIZE nodes)))"

definition hasNextPageInChunk :: "(string \<Rightarrow> jsnum) \<Rightarrow> location \<Rightarrow> 'a list \<Rightarrow> bool" where
  "hasNextPageInChunk Number loc nodes =
     js_less (currentPage Number loc nodes) (Fin (of_nat (totalPages PAGE_SIZE nodes)))"

definition hasPreviousPageInChunk :: "(string \<Rightarrow> jsnum) \<Rightarrow> location \<Rightarrow> 'a list \<Rightarrow> bool" where
  "hasPreviousPageInChunk Number loc nodes =
     js_less (Fin 1) (currentPage Number loc nodes)"

text \<open>
  \<open>buildPageUrl(nextPage, cursor = chunkCursor, direction = chunkDirection)\<close>. An
  argument that the caller leaves out is \<open>None\<close> and takes the default; the value it
  then has is \<open>null\<close> or a string. The two callers that pass a cursor pass one they
  have tested to be a non-empty string.
\<close>

definition buildPageUrl ::
  "(jsnum \<Rightarrow> string) \<Rightarrow> location \<Rightarrow> jsnum \<Rightarrow> string option \<Rightarrow> string option \<Rightarrow> href" where
  "buildPageUrl String loc nextPage cursorArg directionArg =
     (let cursor = (case cursorArg of None \<Rightarrow> chunkCursor loc | Some c \<Rightarrow> Some c);
          direction = (case directionArg of None \<Rightarrow> chunkDirection loc | Some d \<Rightarrow> Some d);
          nextParams = params_set (search loc) ''page'' (String nextPage);
          nextParams =
            (case (cursor, direction) of
               (Some c, Some d) \<Rightarrow>
                 if c \<noteq> [] \<and> d \<noteq> []
                 then params_set (params_set nextParams ''cursor'' c) ''direction'' d
                 else params_delete (params_delete nextParams ''cursor'') ''direction''
             | _ \<Rightarrow> params_delete (params_delete nextParams ''cursor'') ''direction'')
      in (pathname loc, nextParams))"

definition nextUrl ::
  "(string \<Rightarrow> jsnum) \<Rightarrow> (jsnum \<Rightarrow> string) \<Rightarrow> location \<Rightarrow> 'a list \<Rightarrow> pageInfo \<Rightarrow> href option" where
  "nextUrl Number String loc nodes info =
     (if hasNextPageInChunk Number loc nodes
      then Some (buildPageUrl String loc (js_add (currentPage Number loc nodes) (Fin 1)) None None)
      else if hasNextPage info \<and> truthy (endCursor info)
      then Some (buildPageUrl String loc (Fin 1) (endCursor info) (Some ''next''))
      else None)"

definition prevUrl ::
  "(string \<Rightarrow> jsnum) \<Rightarrow> (jsnum \<Rightarrow> string) \<Rightarrow> location \<Rightarrow> 'a list \<Rightarrow> pageInfo \<Rightarrow> href option" where
  "prevUrl Number String loc nodes info =
     (if hasPreviousPageInChunk Number loc nodes
      then Some (buildPageUrl String loc (js_sub (currentPage Number loc nodes) (Fin 1)) None None)
      else if hasPreviousPage info \<and> truthy (startCursor info)
      then Some (buildPageUrl String loc (Fin (of_nat PAGES_PER_CHUNK)) (startCursor info)
                   (Some ''previous''))
      else None)"

text \<open>
  The page-number row, \<open>Array.from({length: totalPages}, (_, index) => ...)\<close>: for each
  index the page number, whether it is the active page, and \<open>pageUrl\<close>.
\<close>

definition pageLinks ::
  "(string \<Rightarrow> jsnum) \<Rightarrow> (jsnum \<Rightarrow> string) \<Rightarrow> location \<Rightarrow> 'a list \<Rightarrow> (nat \<times> bool \<times> href) list" where
  "pageLinks Number String loc nodes =
     map (\<lambda>index.
            let pageNumber = index + 1;
                isActive = (Fin (of_nat pageNumber) = currentPage Number loc nodes);
                pageUrl = buildPageUrl String loc (Fin (of_nat pageNumber)) None None
            in (pageNumber, isActive, pageUrl))
         [0..<totalPages PAGE_SIZE nodes]"

text \<open>The parameters of a query string that are none of \<open>page\<close>, \<open>cursor\<close>, \<open>direction\<close>.\<close>

definition other_params :: "params \<Rightarrow> params" where
  "other_params ps =
     filter (\<lambda>(n, _). n \<noteq> ''page'' \<and> n \<noteq> ''cursor'' \<and> n \<noteq> ''direction'') ps"

subsection \<open>A platform for the examples\<close>

text \<open>
  The examples need the two conversions at a few whole numbers. \<open>decimal\<close> writes a
  natural number in base ten. \<open>Number_digits\<close> is \<open>Number\<close> on the empty text (read as
  0), on the texts of decimal digits, and on the text \<open>x\<close> (no number: \<open>NaN\<close>);
  \<open>String_whole\<close> is \<open>String\<close> on the whole numbers, the infinities and \<open>NaN\<close> (both
  exact below \<open>2^53\<close>). What they answer elsewhere is never used.
\<close>

fun decimal :: "nat \<Rightarrow> string" where
  "decimal n =
     (if n < 10 then [''0123456789'' ! n]
      else decimal (n div 10) @ [''0123456789'' ! (n mod 10)])"

declare decimal.simps [simp del]

definition digit_value :: "char \<Rightarrow> nat option" where
  "digit_value c =
     (let code = (of_char c :: nat)
      in if 48 \<le> code \<and> code \<le> 57 then Some (code - 48) else None)"

fun digits_value :: "nat \<Rightarrow> string \<Rightarrow> nat option" where
  "digits_value acc [] = Some acc"
| "digits_value acc (c # cs) =
     (case digit_value c of None \<Rightarrow> None | Some d \<Rightarrow> digits_value (10 * acc + d) cs)"

definition Number_digits :: "string \<Rightarrow> jsnum" where
  "Number_digits s =
     (case digits_value 0 s of None \<Rightarrow> NaN | Some n \<Rightarrow> Fin (of_nat n))"

definition String_whole :: "jsnum \<Rightarrow> string" where
  "String_whole x =
     (case x of Fin q \<Rightarrow> (if 0 \<le> q then decimal (nat \<lfloor>q\<rfloor>) else ''-'' @ decimal (nat \<lfloor>- q\<rfloor>))
      | NaN \<Rightarrow> ''NaN'' | PosInf \<Rightarrow> ''Infinity'' | NegInf \<Rightarrow> ''-Infinity'')"

section \<open>Image presentation controller (the product route)\<close>

subsection \<open>Images and the component state\<close>

record image =
  id_img :: "string option"
  url :: string
  altText :: "string option"

text \<open>\<open>withImageWidth(url, width)\<close>; the width is written in base ten.\<close>

definition withImageWidth :: "string \<Rightarrow> nat \<Rightarrow> string" where
  "withImageWidth u width =
     (let separator = (if CHR ''?'' \<in> set u then ''&'' else ''?'')
      in u @ separator @ ''width='' @ decimal width)"

text \<open>\<open>xs[i]\<close> for a whole number \<open>i\<close>: \<open>undefined\<close> outside the array.\<close>

definition item_at :: "'a list \<Rightarrow> int \<Rightarrow> 'a option" where
  "item_at xs i = (if 0 \<le> i \<and> i < int (length xs) then Some (xs ! nat i) else None)"

fun findIndex :: "('a \<Rightarrow> bool) \<Rightarrow> 'a list \<Rightarrow> int" where
  "findIndex P [] = - 1"
| "findIndex P (x # xs) =
     (if P x then 0 else (let r = findIndex P xs in if r < 0 then - 1 else r + 1))"

text \<open>
  The body of the \<open>useMemo\<close> that computes \<open>images\<close> from \<open>baseImages\<close> and
  \<open>variantImage\<close>.
\<close>

definition images_memo :: "image list \<Rightarrow> image option \<Rightarrow> image list" where
  "images_memo baseImages variantImage =
     (case variantImage of
        None \<Rightarrow> baseImages
      | Some v \<Rightarrow>
          if list_ex (\<lambda>im. id_img im = id_img v) baseImages then baseImages
          else v # baseImages)"

datatype phase = Idle | FadeOut | FadeIn

text \<open>
  The state of a mounted \<open>Product\<close>: its props (\<open>baseImages\<close>, \<open>variantImage\<close>), the
  memoised \<open>images\<close>, the five state cells of the carousel, and what the component has
  handed to the platform: the fade-out timer of the transition effect with the
  \<open>pendingIndex\<close> its callback closed over (\<open>None\<close> when none is scheduled), the number
  of scheduled fade-in timers, and the URLs for which a preloader was started.
\<close>

record carousel =
  baseImages :: "image list"
  variantImage :: "image option"
  images :: "image list"
  activeIndex :: int
  displayIndex :: int
  pendingIndex :: "int option"
  phase :: phase
  loadedImages :: "string set"
  fadeOutTimer :: "int option"
  fadeInTimers :: nat
  preloads :: "string list"

subsection \<open>Handlers and callbacks\<close>

definition markLoaded :: "string \<Rightarrow> carousel \<Rightarrow> carousel" where
  "markLoaded u s =
     (if u = [] then s
      else s\<lparr>loadedImages :=
                (let prev = loadedImages s in if u \<in> prev then prev else insert u prev)\<rparr>)"

definition preloadImage :: "string \<Rightarrow> carousel \<Rightarrow> carousel" where
  "preloadImage u s = (if u = [] then s else s\<lparr>preloads := preloads s @ [u]\<rparr>)"

definition switchTo :: "int \<Rightarrow> carousel \<Rightarrow> carousel" where
  "switchTo index s =
     (if images s = [] \<or> index = activeIndex s then s
      else
        let target = item_at (images s) index;
            targetUrl = (case target of
                           None \<Rightarrow> None
                         | Some t \<Rightarrow> if url t \<noteq> [] then Some (withImageWidth (url t) 800) else None);
            s1 = (case targetUrl of
                    None \<Rightarrow> s
                  | Some u \<Rightarrow> if u \<noteq> [] \<and> u \<notin> loadedImages s then preloadImage u s else s)
        in s1\<lparr>activeIndex := index, pendingIndex := Some index\<rparr>)"

text \<open>
  The callback of the fade-out timer, with the \<open>pendingIndex\<close> it closed over: it swaps
  the displayed image and schedules the fade-in timer. The cleanup it returns goes to
  \<open>setTimeout\<close>, which drops it, so nothing cancels a fade-in timer.
\<close>

definition fadeOutCallback :: "int \<Rightarrow> carousel \<Rightarrow> carousel" where
  "fadeOutCallback p s =
     s\<lparr>displayIndex := p, phase := FadeIn, fadeOutTimer := None,
       fadeInTimers := Suc (fadeInTimers s)\<rparr>"

definition fadeInCallback :: "carousel \<Rightarrow> carousel" where
  "fadeInCallback s =
     s\<lparr>phase := Idle, pendingIndex := None, fadeInTimers := fadeInTimers s - 1\<rparr>"

subsection \<open>Effects\<close>

text \<open>
  An effect reads the values of the render it belongs to (\<open>r\<close>) and queues state
  updates; the updates of all effects of one commit are applied in order (\<open>s\<close> is the
  state being built). The variant-image effect:
\<close>

definition variantImageEffect :: "carousel \<Rightarrow> carousel \<Rightarrow> carousel" where
  "variantImageEffect r s =
     (let matchIndex = (case variantImage r of
                          None \<Rightarrow> - 1
                        | Some v \<Rightarrow> findIndex (\<lambda>im. id_img im = id_img v) (images r))
      in if variantImage r \<noteq> None \<and> 0 \<le> matchIndex
         then s\<lparr>activeIndex := matchIndex, displayIndex := matchIndex,
                pendingIndex := None, phase := Idle\<rparr>
         else if images r \<noteq> [] \<and> int (length (images r)) \<le> displayIndex r
         then s\<lparr>activeIndex := 0, displayIndex := 0\<rparr>
         else s)"

text \<open>
  The transition effect. Running it first runs the cleanup of its previous run, which
  clears the fade-out timer that run may have scheduled.
\<close>

definition transitionEffect :: "carousel \<Rightarrow> carousel \<Rightarrow> carousel" where
  "transitionEffect r s0 =
     (let s = s0\<lparr>fadeOutTimer := None\<rparr>
      in case pendingIndex r of
           None \<Rightarrow> s
         | Some p \<Rightarrow>
             if p = displayIndex r then s\<lparr>pendingIndex := None\<rparr>
             else (case item_at (images r) p of
                     None \<Rightarrow> s
                   | Some target \<Rightarrow>
                       if withImageWidth (url target) 800 \<notin> loadedImages r then s
                       else s\<lparr>phase := FadeOut, fadeOutTimer := Some p\<rparr>))"

text \<open>The dependencies of the transition effect.\<close>

definition deps :: "carousel \<Rightarrow> int option \<times> int \<times> string set \<times> image list" where
  "deps s = (pendingIndex s, displayIndex s, loadedImages s, images s)"

lemma transitionEffect_deps:
  "deps (transitionEffect c c) = deps c \<or>
   (pendingIndex c \<noteq> None \<and> pendingIndex (transitionEffect c c) = None)"
  by (auto simp: transitionEffect_def deps_def Let_def split: option.splits)

lemma transitionEffect_pending:
  "pendingIndex (transitionEffect c c) = None \<or>
   pendingIndex (transitionEffect c c) = pendingIndex c"
  by (auto simp: transitionEffect_def Let_def split: option.splits)

text \<open>
  After a state update the component renders again, and the transition effect runs
  when one of its dependencies differs from the previous render; what it queues is the
  next update. \<open>prev\<close> is the previous render, \<open>cur\<close> the state to render.
\<close>

function rerender :: "carousel \<Rightarrow> carousel \<Rightarrow> carousel" where
  "rerender prev cur =
     (if deps prev = deps cur then cur else rerender cur (transitionEffect cur cur))"
  by pat_completeness auto
termination
proof (relation "measure (\<lambda>(prev, cur).
          (if deps prev = deps cur then 0 else 1)
          + (case pendingIndex cur of None \<Rightarrow> 0 | Some _ \<Rightarrow> (1::nat)))")
  show "wf (measure (\<lambda>(prev, cur).
          (if deps prev = deps cur then 0 else 1)
          + (case pendingIndex cur of None \<Rightarrow> 0 | Some _ \<Rightarrow> (1::nat))))"
    by simp
next
  fix prev cur :: carousel
  assume changed: "deps prev \<noteq> deps cur"
  define c where "c = transitionEffect cur cur"
  define w :: "carousel \<Rightarrow> nat"
    where "w = (\<lambda>x. case pendingIndex x of None \<Rightarrow> 0 | Some _ \<Rightarrow> 1)"
  have less: "(if deps cur = deps c then 0 else 1) + w c < 1 + w cur"
  proof (cases "deps cur = deps c")
    case True
    then have "pendingIndex c = pendingIndex cur"
      by (simp add: deps_def)
    with True show ?thesis
      by (simp add: w_def)
  next
    case False
    with transitionEffect_deps [of cur]
    have "pendingIndex cur \<noteq> None" and "pendingIndex c = None"
      unfolding c_def by metis+
    with False show ?thesis
      by (cases "pendingIndex cur") (simp_all add: w_def)
  qed
  show "((cur, transitionEffect cur cur), (prev, cur))
      \<in> measure (\<lambda>(prev, cur).
          (if deps prev = deps cur then 0 else 1)
          + (case pendingIndex cur of None \<Rightarrow> 0 | Some _ \<Rightarrow> (1::nat)))"
    using less changed unfolding c_def w_def by simp
qed

declare rerender.simps [simp del]

subsection \<open>Events\<close>

text \<open>
  What can happen to a mounted component: a call of \<open>switchTo\<close>; a load completing
  (\<open>markLoaded\<close>, from a preloader's \<open>onload\<close> or the main image's \<open>onLoad\<close>); the
  fade-out timer or a fade-in timer firing; new props. New props are either a new
  product from the loader (\<open>Some\<close> of its image array, a new array even when its
  content is the old one) or only another selected variant (\<open>None\<close>: \<open>baseImages\<close> is
  the same array). Timers are events: their delays are not modelled. The background
  sweep and the thumbnail delay are left out: they write none of the state cells, and
  the loads that the sweep starts complete as \<open>MarkLoaded\<close> events.
\<close>

datatype event =
    SwitchTo int
  | MarkLoaded string
  | FadeOutFires
  | FadeInFires
  | NewProps "image list option" "image option"

text \<open>\<open>variantImage?.id\<close>\<close>

definition variantId :: "image option \<Rightarrow> string option option" where
  "variantId v = map_option id_img v"

text \<open>Whether the memo answers the \<open>baseImages\<close> array itself.\<close>

definition memo_is_base :: "image list \<Rightarrow> image option \<Rightarrow> bool" where
  "memo_is_base base v =
     (case v of None \<Rightarrow> True | Some i \<Rightarrow> list_ex (\<lambda>im. id_img im = id_img i) base)"

text \<open>
  The render and commit after new props. The memo is computed again when one of its
  dependencies \<open>[baseImages, variantImage?.id]\<close> changed, and \<open>images\<close> is then another
  array unless the memo answered \<open>baseImages\<close> before and answers the same array now;
  otherwise \<open>images\<close> is the array it was. In the commit the variant-image effect runs
  first, then the transition effect, each when one of its dependencies changed, both
  on the values of this render.
\<close>

definition newProps :: "image list option \<Rightarrow> image option \<Rightarrow> carousel \<Rightarrow> carousel" where
  "newProps newBase variant s =
     (let base = (case newBase of None \<Rightarrow> baseImages s | Some b \<Rightarrow> b);
          idChanged = (variantId variant \<noteq> variantId (variantImage s));
          imagesChanged =
            (newBase \<noteq> None \<or>
             (idChanged \<and> \<not> (memo_is_base base (variantImage s) \<and> memo_is_base base variant)));
          r = s\<lparr>baseImages := base, variantImage := variant,
                images := (if imagesChanged then images_memo base variant else images s)\<rparr>;
          c1 = (if idChanged \<or> imagesChanged then variantImageEffect r r else r);
          c2 = (if imagesChanged then transitionEffect r c1 else c1)
      in rerender r c2)"

fun step :: "event \<Rightarrow> carousel \<Rightarrow> carousel" where
  "step (SwitchTo index) s = rerender s (switchTo index s)"
| "step (MarkLoaded u) s = rerender s (markLoaded u s)"
| "step FadeOutFires s =
     (case fadeOutTimer s of None \<Rightarrow> s | Some p \<Rightarrow> rerender s (fadeOutCallback p s))"
| "step FadeInFires s =
     (if fadeInTimers s = 0 then s else rerender s (fadeInCallback s))"
| "step (NewProps newBase variant) s = newProps newBase variant s"

definition run :: "event list \<Rightarrow> carousel \<Rightarrow> carousel" where
  "run es s = foldl (\<lambda>s e. step e s) s es"

text \<open>The first render with its \<open>useState\<close> initial values, and the mount commit, in
  which every effect runs.\<close>

definition initial :: "image list \<Rightarrow> image option \<Rightarrow> carousel" where
  "initial base variant =
     \<lparr>baseImages = base, variantImage = variant, images = images_memo base variant,
      activeIndex = 0, displayIndex = 0, pendingIndex = None, phase = Idle,
      loadedImages = {}, fadeOutTimer = None, fadeInTimers = 0, preloads = []\<rparr>"

definition mount :: "image list \<Rightarrow> image option \<Rightarrow> carousel" where
  "mount base variant =
     (let r = initial base variant
      in rerender r (transitionEffect r (variantImageEffect r r)))"

inductive reachable :: "carousel \<Rightarrow> bool" where
  mounted: "reachable (mount base variant)"
| stepped: "reachable s \<Longrightarrow> reachable (step e s)"

text \<open>The events that are no call of the user and no change of props.\<close>

fun is_passive :: "event \<Rightarrow> bool" where
  "is_passive (MarkLoaded u) = True"
| "is_passive FadeOutFires = True"
| "is_passive FadeInFires = True"
| "is_passive _ = False"

fun keeps_props :: "event \<Rightarrow> bool" where
  "keeps_props (NewProps newBase variant) = False"
| "keeps_props _ = True"

text \<open>Whether the image at an index exists with its 800-wide URL marked loaded.\<close>

definition target_loaded :: "carousel \<Rightarrow> int \<Rightarrow> bool" where
  "target_loaded s p =
     (case item_at (images s) p of
        None \<Rightarrow> False
      | Some im \<Rightarrow> withImageWidth (url im) 800 \<in> loadedImages s)"

definition shown_loaded :: "carousel \<Rightarrow> bool" where
  "shown_loaded s = target_loaded s (displayIndex s)"

text \<open>
  The state the transition effect leaves behind: the fade-out timer is scheduled, for
  the pending index, exactly when that index differs from \<open>displayIndex\<close> and its
  image is loaded.
\<close>

definition settled :: "carousel \<Rightarrow> bool" where
  "settled s =
     (fadeOutTimer s =
        (case pendingIndex s of
           None \<Rightarrow> None
         | Some p \<Rightarrow> if p \<noteq> displayIndex s \<and> target_loaded s p then Some p else None))"

text \<open>Whether \<open>displayIndex\<close> is a position of the image list, when there is an image.\<close>

definition display_valid :: "carousel \<Rightarrow> bool" where
  "display_valid s =
     (0 \<le> displayIndex s \<and> (images s = [] \<or> displayIndex s < int (length (images s))))"

text \<open>An image for the examples, named by its id.\<close>

definition pic :: "string \<Rightarrow> image" where
  "pic n = \<lparr>id_img = Some n, url = n @ ''.jpg'', altText = None\<rparr>"

text \<open>
  The states of the example product: the images a, b, c, no variant image, and the
  given values of the state cells, timers and started preloads.
\<close>

definition example_state ::
  "int \<Rightarrow> int \<Rightarrow> int option \<Rightarrow> phase \<Rightarrow> string set \<Rightarrow> int option \<Rightarrow> nat \<Rightarrow> string list
   \<Rightarrow> carousel" where
  "example_state active display pending ph loaded fadeOut fadeIn started =
     \<lparr>baseImages = [pic ''a'', pic ''b'', pic ''c''], variantImage = None,
      images = [pic ''a'', pic ''b'', pic ''c''],
      activeIndex = active, displayIndex = display, pendingIndex = pending, phase = ph,
      loadedImages = loaded, fadeOutTimer = fadeOut, fadeInTimers = fadeIn,
      preloads = started\<rparr>"

section \<open>Properties of the paginator\<close>

lemma totalPages_div:
  "0 < pageSize \<Longrightarrow>
   totalPages pageSize nodes = max 1 ((length nodes + pageSize - 1) div pageSize)"
proof -
  assume ps: "0 < pageSize"
  define n where "n = length nodes"
  have "\<lceil>(of_nat n :: rat) / of_nat pageSize\<rceil> = int ((n + pageSize - 1) div pageSize)"
  proof (rule ceiling_unique)
    define q where "q = (n + pageSize - 1) div pageSize"
    define r where "r = (n + pageSize - 1) mod pageSize"
    have eq: "n + pageSize - 1 = q * pageSize + r"
      by (simp add: q_def r_def)
    have r: "r < pageSize"
      using ps by (simp add: r_def)
    have le: "n \<le> q * pageSize"
      using eq r ps by linarith
    have gt: "(q * pageSize) < n + pageSize"
      using eq r ps by linarith
    have psr: "(0::rat) < of_nat pageSize"
      using ps by simp
    have "(of_nat n :: rat) \<le> of_nat (q * pageSize)"
      using le of_nat_le_iff by blast
    then have "(of_nat n :: rat) \<le> of_nat q * of_nat pageSize"
      by simp
    then have "(of_nat n :: rat) / of_nat pageSize \<le> of_nat q"
      using psr by (simp add: pos_divide_le_eq)
    then show "(of_nat n :: rat) / of_nat pageSize \<le> of_int (int q)"
      by simp
    have "(of_nat (q * pageSize) :: rat) < of_nat (n + pageSize)"
      using gt of_nat_less_iff by blast
    then have "(of_nat q - 1) * (of_nat pageSize :: rat) < of_nat n"
      by (simp add: algebra_simps)
    then have "(of_nat q - 1 :: rat) < of_nat n / of_nat pageSize"
      using psr by (simp add: pos_less_divide_eq)
    then show "of_int (int q) - 1 < (of_nat n :: rat) / of_nat pageSize"
      by simp
  qed
  then show ?thesis
    by (simp add: totalPages_def n_def)
qed

subsection \<open>Pages partition the chunk\<close>

lemma slice_page:
  "visibleNodes pageSize nodes (Fin (of_nat (Suc i))) = take pageSize (drop (i * pageSize) nodes)"
proof -
  have s: "startIndex pageSize (Fin (of_nat (Suc i))) = Fin (of_nat (i * pageSize))"
    by (simp add: startIndex_def js_sub_def)
  have e: "endIndex pageSize (Fin (of_nat (Suc i))) = Fin (of_nat (i * pageSize + pageSize))"
    unfolding endIndex_def s by simp
  have k: "relative_index (length nodes) (ToIntegerOrInfinity (Fin (of_nat a))) = min a (length nodes)" for a
    by simp
  show ?thesis
    unfolding visibleNodes_def slice_def s e k Let_def
    by (cases "i * pageSize \<le> length nodes") (simp_all add: min_def)
qed

lemma concat_pages:
  "concat (map (\<lambda>i. take pageSize (drop (i * pageSize) xs)) [0..<n]) = take (n * pageSize) xs"
proof (induction n)
  case 0
  show ?case by simp
next
  case (Suc n)
  have "take (n * pageSize) xs @ take pageSize (drop (n * pageSize) xs) = take (n * pageSize + pageSize) xs"
    by (simp add: take_add)
  with Suc show ?case by (simp add: add.commute)
qed

lemma totalPages_covers:
  assumes "0 < pageSize"
  shows "length nodes \<le> totalPages pageSize nodes * pageSize"
proof -
  have "length nodes \<le> ((length nodes + pageSize - 1) div pageSize) * pageSize"
  proof -
    define q where "q = (length nodes + pageSize - 1) div pageSize"
    define r where "r = (length nodes + pageSize - 1) mod pageSize"
    have "length nodes + pageSize - 1 = q * pageSize + r" by (simp add: q_def r_def)
    moreover have "r < pageSize" using assms by (simp add: r_def)
    ultimately show ?thesis unfolding q_def[symmetric] using assms by linarith
  qed
  also have "\<dots> \<le> totalPages pageSize nodes * pageSize"
    by (simp add: totalPages_div[OF assms])
  finally show ?thesis .
qed

lemma totalPages_tight:
  assumes "0 < pageSize" "Suc i < totalPages pageSize nodes"
  shows "Suc i * pageSize \<le> length nodes"
proof -
  define q where "q = (length nodes + pageSize - 1) div pageSize"
  define r where "r = (length nodes + pageSize - 1) mod pageSize"
  have eq: "length nodes + pageSize - 1 = q * pageSize + r" by (simp add: q_def r_def)
  have "Suc i < q" using assms by (simp add: totalPages_div q_def)
  then have "Suc (Suc i) \<le> q" by simp
  then have "Suc (Suc i) * pageSize \<le> q * pageSize" by (rule mult_le_mono1)
  then have "Suc i * pageSize + pageSize \<le> q * pageSize" by simp
  then show ?thesis using eq assms(1) by linarith
qed

text \<open>
  C3. For every item list and every positive page size, the visible slices of the pages
  \<open>1 .. totalPages\<close>, concatenated in order, are the item list itself, so their lengths
  sum to its length; and every page before the last has exactly \<open>pageSize\<close> items.
\<close>

theorem pages_partition_chunk:
  assumes "0 < pageSize"
  shows "concat (map (\<lambda>i. visibleNodes pageSize nodes (Fin (of_nat i)))
                  [1..<Suc (totalPages pageSize nodes)]) = nodes
       \<and> (\<Sum>i\<leftarrow>[1..<Suc (totalPages pageSize nodes)].
             length (visibleNodes pageSize nodes (Fin (of_nat i)))) = length nodes
       \<and> (\<forall>i. 1 \<le> i \<and> i < totalPages pageSize nodes \<longrightarrow>
             length (visibleNodes pageSize nodes (Fin (of_nat i))) = pageSize)"
proof -
  let ?tp = "totalPages pageSize nodes"
  let ?page = "\<lambda>i. visibleNodes pageSize nodes (Fin (of_nat i))"
  have idx: "[1..<Suc ?tp] = map Suc [0..<?tp]"
    by (simp add: map_Suc_upt)
  have pages: "map ?page [1..<Suc ?tp] = map (\<lambda>i. take pageSize (drop (i * pageSize) nodes)) [0..<?tp]"
    unfolding idx by (simp add: slice_page del: of_nat_Suc)
  have cat: "concat (map ?page [1..<Suc ?tp]) = nodes"
    unfolding pages concat_pages using totalPages_covers[OF assms, of nodes] by simp
  have "(\<Sum>i\<leftarrow>[1..<Suc ?tp]. length (?page i)) = length (concat (map ?page [1..<Suc ?tp]))"
    by (simp add: length_concat comp_def)
  then have total: "(\<Sum>i\<leftarrow>[1..<Suc ?tp]. length (?page i)) = length nodes"
    unfolding cat .
  have full: "length (?page i) = pageSize" if "1 \<le> i" "i < ?tp" for i
  proof -
    from that(1) have "i \<noteq> 0" by simp
    then obtain j where j: "i = Suc j" using not0_implies_Suc by blast
    have "Suc j * pageSize \<le> length nodes"
      using totalPages_tight[OF assms] that(2) j by blast
    then show ?thesis unfolding j slice_page by simp
  qed
  show ?thesis using cat total full by blast
qed

theorem pages_partition_chunk_witness:
  "(0::nat) < 2
   \<and> concat (map (\<lambda>i. visibleNodes 2 [10, 20, 30, 40, 50 :: nat] (Fin (of_nat i)))
                [1..<Suc (totalPages 2 [10, 20, 30, 40, 50 :: nat])]) = [10, 20, 30, 40, 50]
   \<and> (1::nat) < totalPages 2 [10, 20, 30, 40, 50 :: nat]
   \<and> length (visibleNodes 2 [10, 20, 30, 40, 50 :: nat] (Fin (of_nat (1::nat)))) = 2"
proof -
  have p: "(0::nat) < 2"
    by simp
  have tp: "totalPages 2 [10, 20, 30, 40, 50 :: nat] = 3"
    by (simp add: totalPages_div)
  note t = pages_partition_chunk [OF p, of "[10, 20, 30, 40, 50 :: nat]"]
  have cat: "concat (map (\<lambda>i. visibleNodes 2 [10, 20, 30, 40, 50 :: nat] (Fin (of_nat i)))
                [1..<Suc (totalPages 2 [10, 20, 30, 40, 50 :: nat])]) = [10, 20, 30, 40, 50]"
    using t by (rule conjunct1)
  have "(1::nat) \<le> 1 \<and> 1 < totalPages 2 [10, 20, 30, 40, 50 :: nat]"
    by (simp add: tp)
  with t have full: "length (visibleNodes 2 [10, 20, 30, 40, 50 :: nat] (Fin (of_nat (1::nat)))) = 2"
    by blast
  show ?thesis
    using p cat full by (simp add: tp)
qed

subsection \<open>Reading a query string after \<open>set\<close> and \<open>delete\<close>\<close>

lemma params_get_delete:
  "params_get (params_delete ps k) k' = (if k' = k then None else params_get ps k')"
  unfolding params_get_def params_delete_def
  by (induction ps) auto

lemma map_of_set_first:
  "k \<in> fst ` set ps \<Longrightarrow>
   map_of (set_first k v ps) k' = (if k' = k then Some v else map_of ps k')"
proof (induction ps)
  case Nil
  then show ?case by simp
next
  case (Cons a ps)
  obtain n x where a: "a = (n, x)" by (cases a)
  show ?case
  proof (cases "n = k")
    case True
    then show ?thesis
      using params_get_delete [of ps k k'] by (simp add: a params_get_def)
  next
    case False
    with Cons show ?thesis by (auto simp: a)
  qed
qed

lemma params_get_set:
  "params_get (params_set ps k v) k' = (if k' = k then Some v else params_get ps k')"
proof (cases "k \<in> fst ` set ps")
  case True
  then show ?thesis
    by (simp add: params_set_def params_get_def map_of_set_first)
next
  case False
  then have "map_of ps k = None"
    by (simp add: map_of_eq_None_iff)
  with False show ?thesis
    by (auto simp: params_set_def params_get_def map_add_def split: option.splits)
qed

lemma other_params_delete:
  "k = ''page'' \<or> k = ''cursor'' \<or> k = ''direction'' \<Longrightarrow>
   other_params (params_delete ps k) = other_params ps"
  unfolding other_params_def params_delete_def
  by (induction ps) auto

lemma other_params_set_first:
  "k = ''page'' \<or> k = ''cursor'' \<or> k = ''direction'' \<Longrightarrow>
   other_params (set_first k v ps) = other_params ps"
proof (induction ps)
  case Nil
  then show ?case by simp
next
  case (Cons a ps)
  obtain n x where a: "a = (n, x)" by (cases a)
  show ?case
  proof (cases "n = k")
    case True
    have "other_params ((k, v) # params_delete ps k) = other_params (params_delete ps k)"
      using Cons.prems by (auto simp: other_params_def)
    moreover have "other_params ((n, x) # ps) = other_params ps"
      using Cons.prems True by (auto simp: other_params_def)
    ultimately show ?thesis
      using True other_params_delete [OF Cons.prems, of ps] by (simp add: a)
  next
    case False
    have "other_params ((n, x) # set_first k v ps) = (if n \<noteq> ''page'' \<and> n \<noteq> ''cursor'' \<and> n \<noteq> ''direction'' then [(n, x)] else []) @ other_params (set_first k v ps)"
      by (simp add: other_params_def)
    moreover have "other_params ((n, x) # ps) = (if n \<noteq> ''page'' \<and> n \<noteq> ''cursor'' \<and> n \<noteq> ''direction'' then [(n, x)] else []) @ other_params ps"
      by (simp add: other_params_def)
    ultimately show ?thesis
      using False Cons.IH [OF Cons.prems] by (simp add: a)
  qed
qed

lemma other_params_set:
  assumes "k = ''page'' \<or> k = ''cursor'' \<or> k = ''direction''"
  shows "other_params (params_set ps k v) = other_params ps"
proof (cases "k \<in> fst ` set ps")
  case True
  then show ?thesis
    by (simp add: params_set_def other_params_set_first [OF assms])
next
  case False
  have "other_params (ps @ [(k, v)]) = other_params ps"
    using assms by (auto simp: other_params_def)
  with False show ?thesis
    by (simp add: params_set_def)
qed

subsection \<open>The current page\<close>

lemma requestedPage_cases:
  "requestedPage Number loc = NegInf \<or> requestedPage Number loc = PosInf
   \<or> (\<exists>q. requestedPage Number loc = Fin q \<and> q \<noteq> 0)"
  unfolding requestedPage_def js_or_def
  by (cases "Number (pageText loc)") auto

lemma currentPage_Fin:
  "currentPage Number loc nodes =
     (case requestedPage Number loc of
        Fin q \<Rightarrow> Fin (min (max 1 q) (of_nat (totalPages PAGE_SIZE nodes)))
      | PosInf \<Rightarrow> Fin (of_nat (totalPages PAGE_SIZE nodes))
      | _ \<Rightarrow> Fin (min 1 (of_nat (totalPages PAGE_SIZE nodes))))"
  using requestedPage_cases [of Number loc]
  unfolding currentPage_def
  by (auto simp: min_def max_def)

lemma totalPages_ge_1: "1 \<le> totalPages pageSize nodes"
  by (simp add: totalPages_def)

text \<open>
  C4. Whatever the \<open>page\<close> parameter holds and whatever number the platform reads from
  it, \<open>currentPage\<close> is a finite number between 1 and \<open>totalPages\<close>; and a text read as
  \<open>NaN\<close>, as zero or as a negative number gives page 1. Every operation on this path
  (\<open>get\<close>, \<open>Number\<close>, \<open>||\<close>, \<open>Math.max\<close>, \<open>Math.min\<close>, \<open>Math.ceil\<close>) answers a value for
  every argument, which is why the model of \<open>currentPage\<close> has no error result.
\<close>

theorem currentPage_in_range:
  "(\<exists>q. currentPage Number loc nodes = Fin q
        \<and> 1 \<le> q \<and> q \<le> of_nat (totalPages PAGE_SIZE nodes))
   \<and> ((Number (pageText loc) = NaN \<or> Number (pageText loc) = NegInf
        \<or> (\<exists>q. Number (pageText loc) = Fin q \<and> q \<le> 0))
       \<longrightarrow> currentPage Number loc nodes = Fin 1)"
proof -
  let ?tp = "totalPages PAGE_SIZE nodes"
  have tp: "(1::rat) \<le> of_nat ?tp"
    using totalPages_ge_1 [of PAGE_SIZE nodes] by simp
  have range: "\<exists>q. currentPage Number loc nodes = Fin q \<and> 1 \<le> q \<and> q \<le> of_nat ?tp"
    using tp unfolding currentPage_Fin
    by (cases "requestedPage Number loc") (auto simp: min_def max_def)
  have degrade: "currentPage Number loc nodes = Fin 1"
    if "Number (pageText loc) = NaN \<or> Number (pageText loc) = NegInf
        \<or> (\<exists>q. Number (pageText loc) = Fin q \<and> q \<le> 0)"
  proof -
    from that have "requestedPage Number loc = Fin 1 \<or> requestedPage Number loc = NegInf
        \<or> (\<exists>q. requestedPage Number loc = Fin q \<and> q \<le> 0)"
      unfolding requestedPage_def js_or_def by auto
    then show ?thesis
      using tp unfolding currentPage_Fin by (auto simp: min_def max_def)
  qed
  show ?thesis
    using range degrade by blast
qed

theorem currentPage_in_range_witness:
  "Number_digits (pageText \<lparr>pathname = ''/c'', search = [(''page'', ''x'')]\<rparr>) = NaN
   \<and> currentPage Number_digits \<lparr>pathname = ''/c'', search = [(''page'', ''x'')]\<rparr>
        [10, 20, 30 :: nat] = Fin 1"
proof -
  have n: "Number_digits (pageText \<lparr>pathname = ''/c'', search = [(''page'', ''x'')]\<rparr>) = NaN"
    by (simp add: Number_digits_def pageText_def params_get_def digit_value_def)
  with currentPage_in_range [of Number_digits
      "\<lparr>pathname = ''/c'', search = [(''page'', ''x'')]\<rparr>" "[10, 20, 30 :: nat]"]
  have "currentPage Number_digits \<lparr>pathname = ''/c'', search = [(''page'', ''x'')]\<rparr>
        [10, 20, 30 :: nat] = Fin 1"
    by blast
  with n show ?thesis
    by (rule conjI)
qed

subsection \<open>The URLs the paginator builds\<close>

text \<open>What \<open>buildPageUrl\<close> answers, read back parameter by parameter.\<close>

lemma buildPageUrl_path:
  "fst (buildPageUrl String loc n c d) = pathname loc"
  by (simp add: buildPageUrl_def Let_def)

lemma buildPageUrl_page:
  "params_get (snd (buildPageUrl String loc n c d)) ''page'' = Some (String n)"
  by (simp add: buildPageUrl_def Let_def params_get_set params_get_delete
      split: option.splits)

lemma buildPageUrl_default_cursor:
  "params_get (snd (buildPageUrl String loc n None None)) ''cursor'' =
     (if truthy (chunkCursor loc) \<and> truthy (chunkDirection loc) then chunkCursor loc else None)"
  by (simp add: buildPageUrl_def Let_def params_get_set params_get_delete truthy_def
      split: option.splits)

lemma buildPageUrl_default_direction:
  "params_get (snd (buildPageUrl String loc n None None)) ''direction'' =
     (if truthy (chunkCursor loc) \<and> truthy (chunkDirection loc) then chunkDirection loc else None)"
  by (simp add: buildPageUrl_def Let_def params_get_set params_get_delete truthy_def
      split: option.splits)

lemma buildPageUrl_given_cursor:
  "c \<noteq> [] \<Longrightarrow> d \<noteq> [] \<Longrightarrow>
   params_get (snd (buildPageUrl String loc n (Some c) (Some d))) ''cursor'' = Some c"
  by (simp add: buildPageUrl_def Let_def params_get_set)

lemma buildPageUrl_given_direction:
  "c \<noteq> [] \<Longrightarrow> d \<noteq> [] \<Longrightarrow>
   params_get (snd (buildPageUrl String loc n (Some c) (Some d))) ''direction'' = Some d"
  by (simp add: buildPageUrl_def Let_def params_get_set)

lemma buildPageUrl_other:
  "other_params (snd (buildPageUrl String loc n c d)) = other_params (search loc)"
  by (simp add: buildPageUrl_def Let_def other_params_set other_params_delete
      split: option.splits)

lemma pageLinks_numbers:
  "map fst (pageLinks Number String loc nodes) = [1..<Suc (totalPages PAGE_SIZE nodes)]"
proof -
  have "map fst (pageLinks Number String loc nodes) = map Suc [0..<totalPages PAGE_SIZE nodes]"
    by (simp add: pageLinks_def Let_def comp_def)
  then show ?thesis
    by (simp add: map_Suc_upt)
qed

lemma pageLinks_member:
  assumes "(n, a, u) \<in> set (pageLinks Number String loc nodes)"
  shows "u = buildPageUrl String loc (Fin (of_nat n)) None None"
  using assms by (auto simp: pageLinks_def Let_def)

subsection \<open>Links inside a chunk\<close>

lemma totalPages_100: "totalPages PAGE_SIZE (replicate 100 (0::nat)) = 2"
  by (simp add: totalPages_div PAGE_SIZE_def)

lemma Number_digits_1: "Number_digits ''1'' = Fin 1"
  by (simp add: Number_digits_def digit_value_def)

lemma String_whole_small:
  "String_whole (Fin 1) = ''1''" "String_whole (Fin 2) = ''2''" "String_whole (Fin 4) = ''4''"
  by (simp_all add: String_whole_def decimal.simps)

lemma example_currentPage:
  "currentPage Number_digits
     \<lparr>pathname = ''/c'', search = [(''page'', ''1''), (''cursor'', ''abc''), (''direction'', ''next'')]\<rparr>
     (replicate 100 (0::nat)) = Fin 1"
  by (simp add: currentPage_def requestedPage_def pageText_def params_get_def js_or_def
      Number_digits_1 totalPages_100)

lemma example_buildPageUrl:
  "buildPageUrl String_whole
     \<lparr>pathname = ''/c'', search = [(''page'', ''1''), (''cursor'', ''abc''), (''direction'', ''next'')]\<rparr>
     n None None
   = (''/c'', [(''page'', String_whole n), (''cursor'', ''abc''), (''direction'', ''next'')])"
  by (simp add: buildPageUrl_def chunkCursor_def chunkDirection_def params_get_def
      params_set_def params_delete_def)

lemma example_inChunk:
  "hasNextPageInChunk Number_digits
     \<lparr>pathname = ''/c'', search = [(''page'', ''1''), (''cursor'', ''abc''), (''direction'', ''next'')]\<rparr>
     (replicate 100 (0::nat))"
  by (simp add: hasNextPageInChunk_def example_currentPage totalPages_100)

lemma example_nextUrl:
  "nextUrl Number_digits String_whole
     \<lparr>pathname = ''/c'', search = [(''page'', ''1''), (''cursor'', ''abc''), (''direction'', ''next'')]\<rparr>
     (replicate 100 (0::nat)) info
   = Some (''/c'', [(''page'', ''2''), (''cursor'', ''abc''), (''direction'', ''next'')])"
  by (simp add: nextUrl_def example_inChunk example_currentPage example_buildPageUrl
      String_whole_small)

lemma example_pageLinks:
  "pageLinks Number_digits String_whole
     \<lparr>pathname = ''/c'', search = [(''page'', ''1''), (''cursor'', ''abc''), (''direction'', ''next'')]\<rparr>
     (replicate 100 (0::nat))
   = [(1, True, ''/c'', [(''page'', ''1''), (''cursor'', ''abc''), (''direction'', ''next'')]),
      (2, False, ''/c'', [(''page'', ''2''), (''cursor'', ''abc''), (''direction'', ''next'')])]"
proof -
  have upt2: "[0..<2] = [0, Suc 0]"
    by (simp add: upt_rec)
  show ?thesis
    by (simp add: pageLinks_def totalPages_100 upt2 example_currentPage example_buildPageUrl
        String_whole_small)
qed

text \<open>
  C1 as stated fails. On the URL \<open>/c?page=1&cursor=abc&direction=next\<close> (a chunk reached
  through a cursor) with 100 items, page 1 of 2 is current, and the next target and
  both page-number links carry \<open>cursor=abc\<close> and \<open>direction=next\<close>.
\<close>

theorem intra_chunk_links_counterexample:
  "hasNextPageInChunk Number_digits
     \<lparr>pathname = ''/c'', search = [(''page'', ''1''), (''cursor'', ''abc''), (''direction'', ''next'')]\<rparr>
     (replicate 100 (0::nat))
   \<and> nextUrl Number_digits String_whole
     \<lparr>pathname = ''/c'', search = [(''page'', ''1''), (''cursor'', ''abc''), (''direction'', ''next'')]\<rparr>
     (replicate 100 (0::nat))
     \<lparr>hasNextPage = False, hasPreviousPage = True, endCursor = None, startCursor = None\<rparr>
     = Some (''/c'', [(''page'', ''2''), (''cursor'', ''abc''), (''direction'', ''next'')])
   \<and> pageLinks Number_digits String_whole
     \<lparr>pathname = ''/c'', search = [(''page'', ''1''), (''cursor'', ''abc''), (''direction'', ''next'')]\<rparr>
     (replicate 100 (0::nat))
     = [(1, True, ''/c'', [(''page'', ''1''), (''cursor'', ''abc''), (''direction'', ''next'')]),
        (2, False, ''/c'', [(''page'', ''2''), (''cursor'', ''abc''), (''direction'', ''next'')])]"
  using example_inChunk example_nextUrl example_pageLinks by blast

text \<open>
  C1, amended. Whenever \<open>currentPage < totalPages\<close>, the next target, and likewise every
  page-number link \<open>1 .. totalPages\<close>, carries the \<open>cursor\<close> and \<open>direction\<close> of the
  current URL when both are present and not empty, and neither parameter otherwise.
\<close>

theorem intra_chunk_links_keep_chunk:
  "(hasNextPageInChunk Number loc nodes \<longrightarrow>
      (\<exists>ps. nextUrl Number String loc nodes info = Some (pathname loc, ps)
        \<and> params_get ps ''cursor'' =
            (if truthy (chunkCursor loc) \<and> truthy (chunkDirection loc)
             then chunkCursor loc else None)
        \<and> params_get ps ''direction'' =
            (if truthy (chunkCursor loc) \<and> truthy (chunkDirection loc)
             then chunkDirection loc else None)))
   \<and> map fst (pageLinks Number String loc nodes) = [1..<Suc (totalPages PAGE_SIZE nodes)]
   \<and> (\<forall>(n, a, path, ps) \<in> set (pageLinks Number String loc nodes).
        path = pathname loc
        \<and> params_get ps ''cursor'' =
            (if truthy (chunkCursor loc) \<and> truthy (chunkDirection loc)
             then chunkCursor loc else None)
        \<and> params_get ps ''direction'' =
            (if truthy (chunkCursor loc) \<and> truthy (chunkDirection loc)
             then chunkDirection loc else None))"
proof (intro conjI impI)
  assume inChunk: "hasNextPageInChunk Number loc nodes"
  let ?u = "buildPageUrl String loc (js_add (currentPage Number loc nodes) (Fin 1)) None None"
  have "nextUrl Number String loc nodes info = Some (pathname loc, snd ?u)"
    using inChunk buildPageUrl_path [of String loc _ None None]
    by (simp add: nextUrl_def prod_eq_iff)
  then show "\<exists>ps. nextUrl Number String loc nodes info = Some (pathname loc, ps)
        \<and> params_get ps ''cursor'' =
            (if truthy (chunkCursor loc) \<and> truthy (chunkDirection loc)
             then chunkCursor loc else None)
        \<and> params_get ps ''direction'' =
            (if truthy (chunkCursor loc) \<and> truthy (chunkDirection loc)
             then chunkDirection loc else None)"
    using buildPageUrl_default_cursor buildPageUrl_default_direction by blast
next
  show "map fst (pageLinks Number String loc nodes) = [1..<Suc (totalPages PAGE_SIZE nodes)]"
    by (rule pageLinks_numbers)
next
  show "\<forall>(n, a, path, ps) \<in> set (pageLinks Number String loc nodes).
        path = pathname loc
        \<and> params_get ps ''cursor'' =
            (if truthy (chunkCursor loc) \<and> truthy (chunkDirection loc)
             then chunkCursor loc else None)
        \<and> params_get ps ''direction'' =
            (if truthy (chunkCursor loc) \<and> truthy (chunkDirection loc)
             then chunkDirection loc else None)"
  proof (clarify, intro conjI)
    fix n a path ps
    assume "(n, a, path, ps) \<in> set (pageLinks Number String loc nodes)"
    then have u: "(path, ps) = buildPageUrl String loc (Fin (of_nat n)) None None"
      by (rule pageLinks_member)
    from u have p: "path = fst (buildPageUrl String loc (Fin (of_nat n)) None None)"
      and q: "ps = snd (buildPageUrl String loc (Fin (of_nat n)) None None)"
      by (metis fst_conv, metis snd_conv)
    show "path = pathname loc"
      unfolding p by (rule buildPageUrl_path)
    show "params_get ps ''cursor'' =
            (if truthy (chunkCursor loc) \<and> truthy (chunkDirection loc)
             then chunkCursor loc else None)"
      unfolding q by (rule buildPageUrl_default_cursor)
    show "params_get ps ''direction'' =
            (if truthy (chunkCursor loc) \<and> truthy (chunkDirection loc)
             then chunkDirection loc else None)"
      unfolding q by (rule buildPageUrl_default_direction)
  qed
qed

theorem intra_chunk_links_keep_chunk_witness:
  "hasNextPageInChunk Number_digits
     \<lparr>pathname = ''/c'', search = [(''page'', ''1''), (''cursor'', ''abc''), (''direction'', ''next'')]\<rparr>
     (replicate 100 (0::nat))
   \<and> (\<exists>ps. nextUrl Number_digits String_whole
          \<lparr>pathname = ''/c'', search = [(''page'', ''1''), (''cursor'', ''abc''), (''direction'', ''next'')]\<rparr>
          (replicate 100 (0::nat))
          \<lparr>hasNextPage = False, hasPreviousPage = True, endCursor = None, startCursor = None\<rparr>
          = Some (''/c'', ps)
        \<and> params_get ps ''cursor'' = Some ''abc'' \<and> params_get ps ''direction'' = Some ''next'')
   \<and> (2, False, ''/c'', [(''page'', ''2''), (''cursor'', ''abc''), (''direction'', ''next'')])
        \<in> set (pageLinks Number_digits String_whole
          \<lparr>pathname = ''/c'', search = [(''page'', ''1''), (''cursor'', ''abc''), (''direction'', ''next'')]\<rparr>
          (replicate 100 (0::nat)))
   \<and> params_get [(''page'', ''2''), (''cursor'', ''abc''), (''direction'', ''next'')] ''cursor''
        = Some ''abc''"
proof -
  let ?loc = "\<lparr>pathname = ''/c'',
      search = [(''page'', ''1''), (''cursor'', ''abc''), (''direction'', ''next'')]\<rparr>"
  let ?info = "\<lparr>hasNextPage = False, hasPreviousPage = True, endCursor = None, startCursor = None\<rparr>"
  let ?link = "(2::nat, False, ''/c'', [(''page'', ''2''), (''cursor'', ''abc''), (''direction'', ''next'')])"
  note t = intra_chunk_links_keep_chunk [of Number_digits ?loc "replicate 100 (0::nat)"
      String_whole ?info]
  have cc: "chunkCursor ?loc = Some ''abc''" and cd: "chunkDirection ?loc = Some ''next''"
    by (simp_all add: chunkCursor_def chunkDirection_def params_get_def)
  have tr: "truthy (chunkCursor ?loc) \<and> truthy (chunkDirection ?loc)"
    by (simp add: cc cd truthy_def)
  have h: "hasNextPageInChunk Number_digits ?loc (replicate 100 (0::nat))"
    by (rule example_inChunk)
  have m: "?link \<in> set (pageLinks Number_digits String_whole ?loc (replicate 100 (0::nat)))"
    by (simp add: example_pageLinks)
  from t h tr cc cd
  have n: "\<exists>ps. nextUrl Number_digits String_whole ?loc (replicate 100 (0::nat)) ?info
          = Some (''/c'', ps)
        \<and> params_get ps ''cursor'' = Some ''abc'' \<and> params_get ps ''direction'' = Some ''next''"
    by simp
  from t have "\<forall>(n, a, path, ps)
        \<in> set (pageLinks Number_digits String_whole ?loc (replicate 100 (0::nat))).
        path = pathname ?loc
        \<and> params_get ps ''cursor'' =
            (if truthy (chunkCursor ?loc) \<and> truthy (chunkDirection ?loc)
             then chunkCursor ?loc else None)
        \<and> params_get ps ''direction'' =
            (if truthy (chunkCursor ?loc) \<and> truthy (chunkDirection ?loc)
             then chunkDirection ?loc else None)"
    by blast
  with m tr cc
  have l: "params_get [(''page'', ''2''), (''cursor'', ''abc''), (''direction'', ''next'')] ''cursor''
        = Some ''abc''"
    by fastforce
  show ?thesis
    using h n m l by blast
qed

subsection \<open>Links across chunks\<close>

text \<open>
  C5. On the last page of the chunk the next target is page 1 with \<open>cursor = endCursor\<close>
  and \<open>direction = next\<close> when \<open>hasNextPage\<close> holds and \<open>endCursor\<close> is present (not
  \<open>null\<close> and not empty), and there is no next target otherwise. On page 1 the previous
  target is page \<open>PAGES_PER_CHUNK = 4\<close> with \<open>cursor = startCursor\<close> and
  \<open>direction = previous\<close> when \<open>hasPreviousPage\<close> holds and \<open>startCursor\<close> is present,
  and there is none otherwise.
\<close>

theorem cross_chunk_targets:
  "(currentPage Number loc nodes = Fin (of_nat (totalPages PAGE_SIZE nodes)) \<longrightarrow>
      (if hasNextPage info \<and> truthy (endCursor info)
       then \<exists>ps. nextUrl Number String loc nodes info = Some (pathname loc, ps)
              \<and> params_get ps ''page'' = Some (String (Fin 1))
              \<and> params_get ps ''cursor'' = endCursor info
              \<and> params_get ps ''direction'' = Some ''next''
       else nextUrl Number String loc nodes info = None))
   \<and> (currentPage Number loc nodes = Fin 1 \<longrightarrow>
      (if hasPreviousPage info \<and> truthy (startCursor info)
       then \<exists>ps. prevUrl Number String loc nodes info = Some (pathname loc, ps)
              \<and> params_get ps ''page'' = Some (String (Fin 4))
              \<and> params_get ps ''cursor'' = startCursor info
              \<and> params_get ps ''direction'' = Some ''previous''
       else prevUrl Number String loc nodes info = None))
   \<and> PAGES_PER_CHUNK = 4"
proof (intro conjI impI)
  assume last: "currentPage Number loc nodes = Fin (of_nat (totalPages PAGE_SIZE nodes))"
  then have notIn: "\<not> hasNextPageInChunk Number loc nodes"
    by (simp add: hasNextPageInChunk_def)
  show "if hasNextPage info \<and> truthy (endCursor info)
       then \<exists>ps. nextUrl Number String loc nodes info = Some (pathname loc, ps)
              \<and> params_get ps ''page'' = Some (String (Fin 1))
              \<and> params_get ps ''cursor'' = endCursor info
              \<and> params_get ps ''direction'' = Some ''next''
       else nextUrl Number String loc nodes info = None"
  proof (cases "hasNextPage info \<and> truthy (endCursor info)")
    case True
    then obtain c where c: "endCursor info = Some c" "c \<noteq> []"
      by (auto simp: truthy_def split: option.splits)
    let ?u = "buildPageUrl String loc (Fin 1) (Some c) (Some ''next'')"
    have "nextUrl Number String loc nodes info = Some (pathname loc, snd ?u)"
      using notIn True c buildPageUrl_path [of String loc "Fin 1" "Some c" "Some ''next''"]
      by (simp add: nextUrl_def prod_eq_iff)
    moreover have "params_get (snd ?u) ''page'' = Some (String (Fin 1))"
      by (rule buildPageUrl_page)
    moreover have "params_get (snd ?u) ''cursor'' = endCursor info"
      using c by (simp add: buildPageUrl_given_cursor)
    moreover have "params_get (snd ?u) ''direction'' = Some ''next''"
      using c by (simp add: buildPageUrl_given_direction)
    ultimately show ?thesis
      using True by auto
  next
    case False
    then show ?thesis
      using notIn by (auto simp: nextUrl_def)
  qed
next
  assume first: "currentPage Number loc nodes = Fin 1"
  then have notIn: "\<not> hasPreviousPageInChunk Number loc nodes"
    by (simp add: hasPreviousPageInChunk_def)
  show "if hasPreviousPage info \<and> truthy (startCursor info)
       then \<exists>ps. prevUrl Number String loc nodes info = Some (pathname loc, ps)
              \<and> params_get ps ''page'' = Some (String (Fin 4))
              \<and> params_get ps ''cursor'' = startCursor info
              \<and> params_get ps ''direction'' = Some ''previous''
       else prevUrl Number String loc nodes info = None"
  proof (cases "hasPreviousPage info \<and> truthy (startCursor info)")
    case True
    then obtain c where c: "startCursor info = Some c" "c \<noteq> []"
      by (auto simp: truthy_def split: option.splits)
    let ?u = "buildPageUrl String loc (Fin 4) (Some c) (Some ''previous'')"
    have "prevUrl Number String loc nodes info = Some (pathname loc, snd ?u)"
      using notIn True c buildPageUrl_path [of String loc "Fin 4" "Some c" "Some ''previous''"]
      by (simp add: prevUrl_def prod_eq_iff PAGES_PER_CHUNK_def)
    moreover have "params_get (snd ?u) ''page'' = Some (String (Fin 4))"
      by (rule buildPageUrl_page)
    moreover have "params_get (snd ?u) ''cursor'' = startCursor info"
      using c by (simp add: buildPageUrl_given_cursor)
    moreover have "params_get (snd ?u) ''direction'' = Some ''previous''"
      using c by (simp add: buildPageUrl_given_direction)
    ultimately show ?thesis
      using True by auto
  next
    case False
    then show ?thesis
      using notIn by (auto simp: prevUrl_def)
  qed
next
  show "PAGES_PER_CHUNK = 4"
    by (simp add: PAGES_PER_CHUNK_def)
qed

lemma example_single_page:
  "currentPage Number_digits \<lparr>pathname = ''/c'', search = []\<rparr> [10, 20, 30 :: nat] = Fin 1"
  "totalPages PAGE_SIZE [10, 20, 30 :: nat] = 1"
proof -
  show tp: "totalPages PAGE_SIZE [10, 20, 30 :: nat] = 1"
    by (simp add: totalPages_div PAGE_SIZE_def)
  show "currentPage Number_digits \<lparr>pathname = ''/c'', search = []\<rparr> [10, 20, 30 :: nat] = Fin 1"
    by (simp add: currentPage_def requestedPage_def pageText_def params_get_def js_or_def
        Number_digits_1 tp)
qed

theorem cross_chunk_targets_witness:
  "currentPage Number_digits \<lparr>pathname = ''/c'', search = []\<rparr> [10, 20, 30 :: nat]
     = Fin (of_nat (totalPages PAGE_SIZE [10, 20, 30 :: nat]))
   \<and> (\<exists>ps. nextUrl Number_digits String_whole \<lparr>pathname = ''/c'', search = []\<rparr>
          [10, 20, 30 :: nat]
          \<lparr>hasNextPage = True, hasPreviousPage = True,
           endCursor = Some ''e9'', startCursor = Some ''s1''\<rparr> = Some (''/c'', ps)
        \<and> params_get ps ''page'' = Some ''1''
        \<and> params_get ps ''cursor'' = Some ''e9''
        \<and> params_get ps ''direction'' = Some ''next'')
   \<and> currentPage Number_digits \<lparr>pathname = ''/c'', search = []\<rparr> [10, 20, 30 :: nat] = Fin 1
   \<and> (\<exists>ps. prevUrl Number_digits String_whole \<lparr>pathname = ''/c'', search = []\<rparr>
          [10, 20, 30 :: nat]
          \<lparr>hasNextPage = True, hasPreviousPage = True,
           endCursor = Some ''e9'', startCursor = Some ''s1''\<rparr> = Some (''/c'', ps)
        \<and> params_get ps ''page'' = Some ''4''
        \<and> params_get ps ''cursor'' = Some ''s1''
        \<and> params_get ps ''direction'' = Some ''previous'')"
proof -
  let ?loc = "\<lparr>pathname = ''/c'', search = []\<rparr>"
  let ?info = "\<lparr>hasNextPage = True, hasPreviousPage = True,
           endCursor = Some ''e9'', startCursor = Some ''s1''\<rparr>"
  note t = cross_chunk_targets [of Number_digits ?loc "[10, 20, 30 :: nat]" ?info String_whole]
  have last: "currentPage Number_digits ?loc [10, 20, 30 :: nat]
     = Fin (of_nat (totalPages PAGE_SIZE [10, 20, 30 :: nat]))"
    by (simp add: example_single_page)
  have first: "currentPage Number_digits ?loc [10, 20, 30 :: nat] = Fin 1"
    by (simp add: example_single_page)
  from t last have "\<exists>ps. nextUrl Number_digits String_whole ?loc [10, 20, 30 :: nat] ?info
          = Some (''/c'', ps)
        \<and> params_get ps ''page'' = Some ''1''
        \<and> params_get ps ''cursor'' = Some ''e9''
        \<and> params_get ps ''direction'' = Some ''next''"
    by (simp add: truthy_def String_whole_small)
  moreover from t first have "\<exists>ps. prevUrl Number_digits String_whole ?loc [10, 20, 30 :: nat] ?info
          = Some (''/c'', ps)
        \<and> params_get ps ''page'' = Some ''4''
        \<and> params_get ps ''cursor'' = Some ''s1''
        \<and> params_get ps ''direction'' = Some ''previous''"
    by (simp add: truthy_def String_whole_small)
  ultimately show ?thesis
    using last first by blast
qed

subsection \<open>What the built URLs keep\<close>

text \<open>
  C9. Every URL the paginator builds (the next target, the previous target, each
  page-number link) has the path of the current URL, and its parameters other than
  \<open>page\<close>, \<open>cursor\<close> and \<open>direction\<close> are those of the current URL, with their values,
  order and repetitions.
\<close>

theorem built_urls_keep_other_params:
  "(\<forall>path ps. nextUrl Number String loc nodes info = Some (path, ps) \<longrightarrow>
       path = pathname loc \<and> other_params ps = other_params (search loc))
   \<and> (\<forall>path ps. prevUrl Number String loc nodes info = Some (path, ps) \<longrightarrow>
       path = pathname loc \<and> other_params ps = other_params (search loc))
   \<and> (\<forall>(n, a, path, ps) \<in> set (pageLinks Number String loc nodes).
       path = pathname loc \<and> other_params ps = other_params (search loc))"
proof -
  have built: "path = pathname loc \<and> other_params ps = other_params (search loc)"
    if "(path, ps) = buildPageUrl String loc n c d" for path ps n c d
  proof -
    from that have "path = fst (buildPageUrl String loc n c d)"
      and "ps = snd (buildPageUrl String loc n c d)"
      by (metis fst_conv, metis snd_conv)
    then show ?thesis
      by (simp add: buildPageUrl_path buildPageUrl_other)
  qed
  have nxt: "path = pathname loc \<and> other_params ps = other_params (search loc)"
    if "nextUrl Number String loc nodes info = Some (path, ps)" for path ps
  proof -
    from that obtain n c d where "(path, ps) = buildPageUrl String loc n c d"
      unfolding nextUrl_def by (metis option.distinct(1) option.inject)
    then show ?thesis
      by (rule built)
  qed
  have prv: "path = pathname loc \<and> other_params ps = other_params (search loc)"
    if "prevUrl Number String loc nodes info = Some (path, ps)" for path ps
  proof -
    from that obtain n c d where "(path, ps) = buildPageUrl String loc n c d"
      unfolding prevUrl_def by (metis option.distinct(1) option.inject)
    then show ?thesis
      by (rule built)
  qed
  have lnk: "path = pathname loc \<and> other_params ps = other_params (search loc)"
    if "(n, a, path, ps) \<in> set (pageLinks Number String loc nodes)" for n a path ps
    using pageLinks_member [OF that] by (rule built)
  show ?thesis
    using nxt prv lnk by blast
qed

lemma example_sorted_location:
  "nextUrl Number_digits String_whole
     \<lparr>pathname = ''/c'', search = [(''sort'', ''price''), (''page'', ''1''), (''tag'', ''new'')]\<rparr>
     (replicate 100 (0::nat)) info
   = Some (''/c'', [(''sort'', ''price''), (''page'', ''2''), (''tag'', ''new'')])"
  "prevUrl Number_digits String_whole
     \<lparr>pathname = ''/c'', search = [(''sort'', ''price''), (''page'', ''1''), (''tag'', ''new'')]\<rparr>
     (replicate 100 (0::nat))
     \<lparr>hasNextPage = False, hasPreviousPage = True, endCursor = None, startCursor = Some ''s1''\<rparr>
   = Some (''/c'', [(''sort'', ''price''), (''page'', ''4''), (''tag'', ''new''),
                    (''cursor'', ''s1''), (''direction'', ''previous'')])"
  "pageLinks Number_digits String_whole
     \<lparr>pathname = ''/c'', search = [(''sort'', ''price''), (''page'', ''1''), (''tag'', ''new'')]\<rparr>
     (replicate 100 (0::nat))
   = [(1, True, ''/c'', [(''sort'', ''price''), (''page'', ''1''), (''tag'', ''new'')]),
      (2, False, ''/c'', [(''sort'', ''price''), (''page'', ''2''), (''tag'', ''new'')])]"
proof -
  let ?loc = "\<lparr>pathname = ''/c'',
      search = [(''sort'', ''price''), (''page'', ''1''), (''tag'', ''new'')]\<rparr>"
  have cp: "currentPage Number_digits ?loc (replicate 100 (0::nat)) = Fin 1"
    by (simp add: currentPage_def requestedPage_def pageText_def params_get_def js_or_def
        Number_digits_1 totalPages_100)
  have build: "buildPageUrl String_whole ?loc n None None
      = (''/c'', [(''sort'', ''price''), (''page'', String_whole n), (''tag'', ''new'')])" for n
    by (simp add: buildPageUrl_def chunkCursor_def chunkDirection_def params_get_def
        params_set_def params_delete_def)
  have upt2: "[0..<2] = [0, Suc 0]"
    by (simp add: upt_rec)
  show "nextUrl Number_digits String_whole ?loc (replicate 100 (0::nat)) info
   = Some (''/c'', [(''sort'', ''price''), (''page'', ''2''), (''tag'', ''new'')])"
    by (simp add: nextUrl_def hasNextPageInChunk_def cp totalPages_100 build String_whole_small)
  show "prevUrl Number_digits String_whole ?loc (replicate 100 (0::nat))
     \<lparr>hasNextPage = False, hasPreviousPage = True, endCursor = None, startCursor = Some ''s1''\<rparr>
   = Some (''/c'', [(''sort'', ''price''), (''page'', ''4''), (''tag'', ''new''),
                    (''cursor'', ''s1''), (''direction'', ''previous'')])"
    by (simp add: prevUrl_def hasPreviousPageInChunk_def cp truthy_def PAGES_PER_CHUNK_def
        buildPageUrl_def params_set_def params_delete_def Let_def String_whole_small)
  show "pageLinks Number_digits String_whole ?loc (replicate 100 (0::nat))
   = [(1, True, ''/c'', [(''sort'', ''price''), (''page'', ''1''), (''tag'', ''new'')]),
      (2, False, ''/c'', [(''sort'', ''price''), (''page'', ''2''), (''tag'', ''new'')])]"
    by (simp add: pageLinks_def totalPages_100 upt2 cp build String_whole_small)
qed

theorem built_urls_keep_other_params_witness:
  "nextUrl Number_digits String_whole
     \<lparr>pathname = ''/c'', search = [(''sort'', ''price''), (''page'', ''1''), (''tag'', ''new'')]\<rparr>
     (replicate 100 (0::nat))
     \<lparr>hasNextPage = False, hasPreviousPage = True, endCursor = None, startCursor = Some ''s1''\<rparr>
     = Some (''/c'', [(''sort'', ''price''), (''page'', ''2''), (''tag'', ''new'')])
   \<and> other_params [(''sort'', ''price''), (''page'', ''2''), (''tag'', ''new'')]
     = other_params [(''sort'', ''price''), (''page'', ''1''), (''tag'', ''new'')]
   \<and> prevUrl Number_digits String_whole
     \<lparr>pathname = ''/c'', search = [(''sort'', ''price''), (''page'', ''1''), (''tag'', ''new'')]\<rparr>
     (replicate 100 (0::nat))
     \<lparr>hasNextPage = False, hasPreviousPage = True, endCursor = None, startCursor = Some ''s1''\<rparr>
     = Some (''/c'', [(''sort'', ''price''), (''page'', ''4''), (''tag'', ''new''),
                      (''cursor'', ''s1''), (''direction'', ''previous'')])
   \<and> other_params [(''sort'', ''price''), (''page'', ''4''), (''tag'', ''new''),
                     (''cursor'', ''s1''), (''direction'', ''previous'')]
     = other_params [(''sort'', ''price''), (''page'', ''1''), (''tag'', ''new'')]
   \<and> (2, False, ''/c'', [(''sort'', ''price''), (''page'', ''2''), (''tag'', ''new'')])
     \<in> set (pageLinks Number_digits String_whole
     \<lparr>pathname = ''/c'', search = [(''sort'', ''price''), (''page'', ''1''), (''tag'', ''new'')]\<rparr>
     (replicate 100 (0::nat)))"
proof -
  let ?loc = "\<lparr>pathname = ''/c'',
      search = [(''sort'', ''price''), (''page'', ''1''), (''tag'', ''new'')]\<rparr>"
  let ?info = "\<lparr>hasNextPage = False, hasPreviousPage = True,
      endCursor = None, startCursor = Some ''s1''\<rparr>"
  note t = built_urls_keep_other_params [of Number_digits String_whole ?loc
      "replicate 100 (0::nat)" ?info]
  have n: "nextUrl Number_digits String_whole ?loc (replicate 100 (0::nat)) ?info
     = Some (''/c'', [(''sort'', ''price''), (''page'', ''2''), (''tag'', ''new'')])"
    by (rule example_sorted_location(1))
  have p: "prevUrl Number_digits String_whole ?loc (replicate 100 (0::nat)) ?info
     = Some (''/c'', [(''sort'', ''price''), (''page'', ''4''), (''tag'', ''new''),
                      (''cursor'', ''s1''), (''direction'', ''previous'')])"
    by (rule example_sorted_location(2))
  have m: "(2, False, ''/c'', [(''sort'', ''price''), (''page'', ''2''), (''tag'', ''new'')])
     \<in> set (pageLinks Number_digits String_whole ?loc (replicate 100 (0::nat)))"
    by (simp add: example_sorted_location(3))
  from t n have kn: "other_params [(''sort'', ''price''), (''page'', ''2''), (''tag'', ''new'')]
     = other_params (search ?loc)"
    by blast
  from t p have kp: "other_params [(''sort'', ''price''), (''page'', ''4''), (''tag'', ''new''),
                     (''cursor'', ''s1''), (''direction'', ''previous'')]
     = other_params (search ?loc)"
    by blast
  show ?thesis
    using n p m kn kp by simp
qed

section \<open>Properties of the image presentation controller\<close>

subsection \<open>Rendering until the effect is quiet\<close>

lemma transitionEffect_quiet:
  assumes "pendingIndex c = None" and "fadeOutTimer c = None"
  shows "transitionEffect c c = c"
proof -
  have "c\<lparr>fadeOutTimer := None\<rparr> = c"
    using assms(2) by (metis carousel.surjective carousel.update_convs(9))
  then show ?thesis
    using assms(1) by (simp add: transitionEffect_def)
qed

lemma transitionEffect_clears:
  assumes "deps (transitionEffect c c) \<noteq> deps c"
  shows "pendingIndex (transitionEffect c c) = None \<and> fadeOutTimer (transitionEffect c c) = None"
  using assms
  by (simp add: transitionEffect_def deps_def Let_def split: option.splits if_splits)

lemma rerender_eq:
  "rerender prev cur = (if deps prev = deps cur then cur else transitionEffect cur cur)"
proof (cases "deps prev = deps cur")
  case True
  then show ?thesis
    by (simp add: rerender.simps)
next
  case False
  let ?c = "transitionEffect cur cur"
  have "rerender cur ?c = ?c"
  proof (cases "deps cur = deps ?c")
    case True
    then show ?thesis
      by (simp add: rerender.simps)
  next
    case ne: False
    then have "pendingIndex ?c = None \<and> fadeOutTimer ?c = None"
      using transitionEffect_clears [of cur] by simp
    then have "transitionEffect ?c ?c = ?c"
      by (simp add: transitionEffect_quiet)
    then have "rerender ?c (transitionEffect ?c ?c) = ?c"
      by (simp add: rerender.simps)
    with ne show ?thesis
      by (subst rerender.simps) simp
  qed
  with False show ?thesis
    by (subst rerender.simps) simp
qed

subsection \<open>The fade-out timer follows the dependencies\<close>

lemma settled_cong:
  assumes "deps a = deps b" and "fadeOutTimer a = fadeOutTimer b"
  shows "settled a = settled b"
proof -
  from assms(1) have d: "pendingIndex a = pendingIndex b" "displayIndex a = displayIndex b"
    and l: "loadedImages a = loadedImages b" "images a = images b"
    by (simp_all add: deps_def)
  from l have "target_loaded a = target_loaded b"
    by (simp add: fun_eq_iff target_loaded_def split: option.splits)
  with d assms(2) show ?thesis
    by (simp add: settled_def cong: option.case_cong)
qed

text \<open>The transition effect, branch by branch.\<close>

lemma transitionEffect_None:
  "pendingIndex r = None \<Longrightarrow> transitionEffect r c = c\<lparr>fadeOutTimer := None\<rparr>"
  by (simp add: transitionEffect_def)

lemma transitionEffect_same:
  "pendingIndex r = Some (displayIndex r) \<Longrightarrow>
   transitionEffect r c = c\<lparr>fadeOutTimer := None, pendingIndex := None\<rparr>"
  by (simp add: transitionEffect_def)

lemma transitionEffect_wait:
  "pendingIndex r = Some p \<Longrightarrow> p \<noteq> displayIndex r \<Longrightarrow> \<not> target_loaded r p \<Longrightarrow>
   transitionEffect r c = c\<lparr>fadeOutTimer := None\<rparr>"
  by (simp add: transitionEffect_def target_loaded_def split: option.splits)

lemma transitionEffect_go:
  "pendingIndex r = Some p \<Longrightarrow> p \<noteq> displayIndex r \<Longrightarrow> target_loaded r p \<Longrightarrow>
   transitionEffect r c = c\<lparr>fadeOutTimer := Some p, phase := FadeOut\<rparr>"
  by (simp add: transitionEffect_def target_loaded_def split: option.splits)

lemma target_loaded_cong:
  "images a = images b \<Longrightarrow> loadedImages a = loadedImages b \<Longrightarrow>
   target_loaded a p = target_loaded b p"
  by (simp add: target_loaded_def split: option.splits)

lemma settled_transitionEffect:
  assumes "deps (transitionEffect r c) = deps r"
  shows "settled (transitionEffect r c)"
proof (cases "pendingIndex r")
  case None
  with assms show ?thesis
    by (simp add: transitionEffect_None settled_def deps_def)
next
  case (Some p)
  show ?thesis
  proof (cases "p = displayIndex r")
    case True
    with Some assms show ?thesis
      by (simp add: transitionEffect_same deps_def)
  next
    case ne: False
    show ?thesis
    proof (cases "target_loaded r p")
      case True
      let ?c = "c\<lparr>fadeOutTimer := Some p, phase := FadeOut\<rparr>"
      have e: "transitionEffect r c = ?c"
        using Some ne True by (rule transitionEffect_go)
      from assms have d: "pendingIndex ?c = Some p" "displayIndex ?c = displayIndex r"
        "images ?c = images r" "loadedImages ?c = loadedImages r"
        unfolding e by (simp_all add: deps_def Some)
      have "target_loaded ?c p"
        using True target_loaded_cong [OF d(3) d(4)] by simp
      with d ne show ?thesis
        unfolding e settled_def by simp
    next
      case False
      let ?c = "c\<lparr>fadeOutTimer := None\<rparr>"
      have e: "transitionEffect r c = ?c"
        using Some ne False by (rule transitionEffect_wait)
      from assms have d: "pendingIndex ?c = Some p" "displayIndex ?c = displayIndex r"
        "images ?c = images r" "loadedImages ?c = loadedImages r"
        unfolding e by (simp_all add: deps_def Some)
      have "\<not> target_loaded ?c p"
        using False target_loaded_cong [OF d(3) d(4)] by simp
      with d ne show ?thesis
        unfolding e settled_def by simp
    qed
  qed
qed

lemma settled_transitionEffect_self: "settled (transitionEffect c c)"
proof (cases "deps (transitionEffect c c) = deps c")
  case True
  then show ?thesis
    by (rule settled_transitionEffect)
next
  case False
  then show ?thesis
    using transitionEffect_clears [of c] by (simp add: settled_def)
qed

lemma settled_rerender:
  assumes "deps prev = deps cur \<Longrightarrow> settled cur"
  shows "settled (rerender prev cur)"
  using assms by (simp add: rerender_eq settled_transitionEffect_self)

lemma settled_mount: "settled (mount base variant)"
  unfolding mount_def Let_def
  by (rule settled_rerender) (metis settled_transitionEffect)

lemma switchTo_frame:
  "fadeOutTimer (switchTo i s) = fadeOutTimer s"
  "displayIndex (switchTo i s) = displayIndex s"
  "loadedImages (switchTo i s) = loadedImages s"
  "images (switchTo i s) = images s"
  "phase (switchTo i s) = phase s"
  "fadeInTimers (switchTo i s) = fadeInTimers s"
  by (simp_all add: switchTo_def preloadImage_def Let_def split: option.splits)

lemma markLoaded_frame:
  "fadeOutTimer (markLoaded u s) = fadeOutTimer s"
  "displayIndex (markLoaded u s) = displayIndex s"
  "pendingIndex (markLoaded u s) = pendingIndex s"
  "activeIndex (markLoaded u s) = activeIndex s"
  "images (markLoaded u s) = images s"
  "phase (markLoaded u s) = phase s"
  "fadeInTimers (markLoaded u s) = fadeInTimers s"
  "preloads (markLoaded u s) = preloads s"
  "loadedImages s \<subseteq> loadedImages (markLoaded u s)"
  by (auto simp: markLoaded_def Let_def)

lemma settled_step:
  assumes "settled s"
  shows "settled (step e s)"
proof (cases e)
  case (SwitchTo i)
  have "settled (rerender s (switchTo i s))"
  proof (rule settled_rerender)
    assume "deps s = deps (switchTo i s)"
    then show "settled (switchTo i s)"
      using assms settled_cong [of "switchTo i s" s] by (simp add: switchTo_frame)
  qed
  then show ?thesis
    by (simp add: SwitchTo)
next
  case (MarkLoaded u)
  have "settled (rerender s (markLoaded u s))"
  proof (rule settled_rerender)
    assume "deps s = deps (markLoaded u s)"
    then show "settled (markLoaded u s)"
      using assms settled_cong [of "markLoaded u s" s] by (simp add: markLoaded_frame)
  qed
  then show ?thesis
    by (simp add: MarkLoaded)
next
  case FadeOutFires
  show ?thesis
  proof (cases "fadeOutTimer s")
    case None
    then show ?thesis
      using assms by (simp add: FadeOutFires)
  next
    case (Some p)
    then have "p \<noteq> displayIndex s"
      using assms by (auto simp: settled_def split: option.splits if_splits)
    then have "deps s \<noteq> deps (fadeOutCallback p s)"
      by (simp add: deps_def fadeOutCallback_def)
    then have "settled (rerender s (fadeOutCallback p s))"
      by (simp add: rerender_eq settled_transitionEffect_self)
    then show ?thesis
      by (simp add: FadeOutFires Some)
  qed
next
  case FadeInFires
  have "settled (rerender s (fadeInCallback s))"
  proof (rule settled_rerender)
    assume "deps s = deps (fadeInCallback s)"
    then have "pendingIndex s = None"
      by (simp add: deps_def fadeInCallback_def)
    then show "settled (fadeInCallback s)"
      using assms by (simp add: settled_def fadeInCallback_def)
  qed
  then show ?thesis
    using assms by (simp add: FadeInFires)
next
  case (NewProps newBase variant)
  define base where "base = (case newBase of None \<Rightarrow> baseImages s | Some b \<Rightarrow> b)"
  define idChanged where "idChanged = (variantId variant \<noteq> variantId (variantImage s))"
  define imagesChanged where "imagesChanged =
            (newBase \<noteq> None \<or>
             (idChanged \<and> \<not> (memo_is_base base (variantImage s) \<and> memo_is_base base variant)))"
  define r where "r = s\<lparr>baseImages := base, variantImage := variant,
                images := (if imagesChanged then images_memo base variant else images s)\<rparr>"
  define c1 where "c1 = (if idChanged \<or> imagesChanged then variantImageEffect r r else r)"
  define c2 where "c2 = (if imagesChanged then transitionEffect r c1 else c1)"
  have np: "newProps newBase variant s = rerender r c2"
    unfolding newProps_def Let_def c2_def c1_def r_def imagesChanged_def idChanged_def base_def
    by (rule refl)
  have "settled (rerender r c2)"
  proof (rule settled_rerender)
    assume same: "deps r = deps c2"
    show "settled c2"
    proof (cases imagesChanged)
      case True
      then show ?thesis
        using same settled_transitionEffect [of r c1] by (simp add: c2_def)
    next
      case False
      then have rs: "deps r = deps s" "fadeOutTimer r = fadeOutTimer s"
        by (simp_all add: r_def deps_def)
      have "fadeOutTimer c1 = fadeOutTimer r"
        by (simp add: c1_def variantImageEffect_def Let_def)
      with False same rs have "deps c2 = deps s" "fadeOutTimer c2 = fadeOutTimer s"
        by (simp_all add: c2_def)
      then show ?thesis
        using assms settled_cong [of c2 s] by simp
    qed
  qed
  then show ?thesis
    by (simp add: NewProps np)
qed

lemma reachable_settled: "reachable s \<Longrightarrow> settled s"
  by (induction rule: reachable.induct) (simp_all add: settled_mount settled_step)

subsection \<open>What a render leaves alone\<close>

lemma transitionEffect_frame:
  "displayIndex (transitionEffect r c) = displayIndex c"
  "activeIndex (transitionEffect r c) = activeIndex c"
  "loadedImages (transitionEffect r c) = loadedImages c"
  "images (transitionEffect r c) = images c"
  "fadeInTimers (transitionEffect r c) = fadeInTimers c"
  "preloads (transitionEffect r c) = preloads c"
  by (simp_all add: transitionEffect_def Let_def split: option.splits)

lemma rerender_frame:
  "displayIndex (rerender prev cur) = displayIndex cur"
  "activeIndex (rerender prev cur) = activeIndex cur"
  "loadedImages (rerender prev cur) = loadedImages cur"
  "images (rerender prev cur) = images cur"
  "fadeInTimers (rerender prev cur) = fadeInTimers cur"
  "preloads (rerender prev cur) = preloads cur"
  by (simp_all add: rerender_eq transitionEffect_frame)

lemma rerender_same: "deps prev = deps cur \<Longrightarrow> rerender prev cur = cur"
  by (simp add: rerender_eq)

lemma rerender_self: "rerender s s = s"
  by (simp add: rerender_eq)

subsection \<open>Calls and loads that change nothing\<close>

text \<open>
  C7. A call of \<open>switchTo\<close> with the active index, or on an empty image list, returns
  before any update: the whole state, with the timers and the list of started
  preloads, stays as it was, both for the handler and after the render that follows.
\<close>

theorem switchTo_ignored:
  assumes "images s = [] \<or> index = activeIndex s"
  shows "switchTo index s = s \<and> step (SwitchTo index) s = s"
proof -
  have "switchTo index s = s"
    using assms by (simp add: switchTo_def)
  then show ?thesis
    by (simp add: rerender_self)
qed

subsection \<open>A product with three images\<close>

lemma pic_fields: "id_img (pic n) = Some n" "url (pic n) = n @ ''.jpg''"
  by (simp_all add: pic_def)

lemma example_urls:
  "withImageWidth ''a.jpg'' 800 = ''a.jpg?width=800''"
  "withImageWidth ''b.jpg'' 800 = ''b.jpg?width=800''"
  "withImageWidth ''c.jpg'' 800 = ''c.jpg?width=800''"
  by (simp_all add: withImageWidth_def decimal.simps)

lemma example_items:
  "item_at [pic ''a'', pic ''b'', pic ''c''] 0 = Some (pic ''a'')"
  "item_at [pic ''a'', pic ''b'', pic ''c''] 1 = Some (pic ''b'')"
  "item_at [pic ''a'', pic ''b'', pic ''c''] 2 = Some (pic ''c'')"
  "item_at [pic ''a'', pic ''b'', pic ''c''] 5 = None"
  by (simp_all add: item_at_def)

lemma example_mount:
  "mount [pic ''a'', pic ''b'', pic ''c''] None =
     \<lparr>baseImages = [pic ''a'', pic ''b'', pic ''c''], variantImage = None,
      images = [pic ''a'', pic ''b'', pic ''c''],
      activeIndex = 0, displayIndex = 0, pendingIndex = None, phase = Idle,
      loadedImages = {}, fadeOutTimer = None, fadeInTimers = 0, preloads = []\<rparr>"
  by (simp add: mount_def initial_def images_memo_def variantImageEffect_def
      transitionEffect_def rerender_eq deps_def)

theorem switchTo_ignored_witness:
  "(images (mount [pic ''a'', pic ''b'', pic ''c''] None) = []
      \<or> 0 = activeIndex (mount [pic ''a'', pic ''b'', pic ''c''] None))
   \<and> switchTo 0 (mount [pic ''a'', pic ''b'', pic ''c''] None)
       = mount [pic ''a'', pic ''b'', pic ''c''] None
   \<and> step (SwitchTo 0) (mount [pic ''a'', pic ''b'', pic ''c''] None)
       = mount [pic ''a'', pic ''b'', pic ''c''] None"
proof -
  have h: "images (mount [pic ''a'', pic ''b'', pic ''c''] None) = []
      \<or> 0 = activeIndex (mount [pic ''a'', pic ''b'', pic ''c''] None)"
    by (simp add: example_mount)
  from h switchTo_ignored [OF h] show ?thesis
    by (rule conjI)
qed

subsection \<open>Marking a URL loaded twice\<close>

lemma markLoaded_known:
  assumes "u \<in> loadedImages s"
  shows "markLoaded u s = s"
  using assms by (simp add: markLoaded_def)

lemma markLoaded_member: "u \<noteq> [] \<Longrightarrow> u \<in> loadedImages (markLoaded u s)"
  by (simp add: markLoaded_def Let_def)

text \<open>
  C8. For a URL that is already in \<open>loadedImages\<close>, the updater of \<open>markLoaded\<close> answers
  the set it was given, so the state does not change and nothing renders; and marking
  the same URL twice, as two preloads of it do, ends in the state that marking it once
  gives.
\<close>

theorem markLoaded_idempotent:
  "(u \<in> loadedImages s \<longrightarrow>
      loadedImages (markLoaded u s) = loadedImages s
      \<and> markLoaded u s = s \<and> step (MarkLoaded u) s = s)
   \<and> markLoaded u (markLoaded u s) = markLoaded u s
   \<and> step (MarkLoaded u) (step (MarkLoaded u) s) = step (MarkLoaded u) s"
proof (intro conjI impI)
  assume known: "u \<in> loadedImages s"
  then show same: "markLoaded u s = s"
    by (rule markLoaded_known)
  then show "loadedImages (markLoaded u s) = loadedImages s"
    by simp
  from same show "step (MarkLoaded u) s = s"
    by (simp add: rerender_self)
next
  show "markLoaded u (markLoaded u s) = markLoaded u s"
  proof (cases "u = []")
    case True
    then show ?thesis
      by (simp add: markLoaded_def)
  next
    case False
    then show ?thesis
      by (simp add: markLoaded_known markLoaded_member)
  qed
next
  let ?s1 = "step (MarkLoaded u) s"
  show "step (MarkLoaded u) ?s1 = ?s1"
  proof (cases "u = []")
    case True
    then have "markLoaded u ?s1 = ?s1"
      by (simp add: markLoaded_def)
    then show ?thesis
      by (simp add: rerender_self)
  next
    case False
    then have "u \<in> loadedImages ?s1"
      by (simp add: rerender_frame markLoaded_member)
    then have "markLoaded u ?s1 = ?s1"
      by (rule markLoaded_known)
    then show ?thesis
      by (simp add: rerender_self)
  qed
qed

theorem markLoaded_idempotent_witness:
  "''a.jpg?width=800'' \<in> loadedImages
      (step (MarkLoaded ''a.jpg?width=800'') (mount [pic ''a'', pic ''b'', pic ''c''] None))
   \<and> markLoaded ''a.jpg?width=800''
      (step (MarkLoaded ''a.jpg?width=800'') (mount [pic ''a'', pic ''b'', pic ''c''] None))
     = step (MarkLoaded ''a.jpg?width=800'') (mount [pic ''a'', pic ''b'', pic ''c''] None)
   \<and> step (MarkLoaded ''a.jpg?width=800'')
      (step (MarkLoaded ''a.jpg?width=800'') (mount [pic ''a'', pic ''b'', pic ''c''] None))
     = step (MarkLoaded ''a.jpg?width=800'') (mount [pic ''a'', pic ''b'', pic ''c''] None)"
proof -
  let ?s = "step (MarkLoaded ''a.jpg?width=800'') (mount [pic ''a'', pic ''b'', pic ''c''] None)"
  have h: "''a.jpg?width=800'' \<in> loadedImages ?s"
    by (simp add: rerender_frame markLoaded_member)
  with markLoaded_idempotent [of "''a.jpg?width=800''" ?s]
  have "markLoaded ''a.jpg?width=800'' ?s = ?s \<and> step (MarkLoaded ''a.jpg?width=800'') ?s = ?s"
    by blast
  with h show ?thesis
    by blast
qed

subsection \<open>The displayed index stays inside the image list\<close>

lemma findIndex_range: "- 1 \<le> findIndex P xs \<and> findIndex P xs < int (length xs)"
  by (induction xs) (auto simp: Let_def)

lemma variantImageEffect_frame:
  "images (variantImageEffect r c) = images c"
  "loadedImages (variantImageEffect r c) = loadedImages c"
  "fadeOutTimer (variantImageEffect r c) = fadeOutTimer c"
  "fadeInTimers (variantImageEffect r c) = fadeInTimers c"
  by (simp_all add: variantImageEffect_def Let_def)

lemma variantImageEffect_cases:
  fixes r c :: carousel
  defines "m \<equiv> (case variantImage r of
                    None \<Rightarrow> - 1
                  | Some v \<Rightarrow> findIndex (\<lambda>im. id_img im = id_img v) (images r))"
  shows "variantImage r \<noteq> None \<and> 0 \<le> m \<Longrightarrow>
           variantImageEffect r c
           = c\<lparr>activeIndex := m, displayIndex := m, pendingIndex := None, phase := Idle\<rparr>"
    and "\<not> (variantImage r \<noteq> None \<and> 0 \<le> m) \<Longrightarrow>
           images r \<noteq> [] \<and> int (length (images r)) \<le> displayIndex r \<Longrightarrow>
           variantImageEffect r c = c\<lparr>activeIndex := 0, displayIndex := 0\<rparr>"
    and "\<not> (variantImage r \<noteq> None \<and> 0 \<le> m) \<Longrightarrow>
           \<not> (images r \<noteq> [] \<and> int (length (images r)) \<le> displayIndex r) \<Longrightarrow>
           variantImageEffect r c = c"
  unfolding variantImageEffect_def m_def Let_def
  by (simp_all only: if_P if_not_P simp_thms)

lemma display_valid_variantImageEffect:
  assumes "0 \<le> displayIndex r"
  shows "display_valid (variantImageEffect r r)"
proof -
  define m where "m = (case variantImage r of
                          None \<Rightarrow> - 1
                        | Some v \<Rightarrow> findIndex (\<lambda>im. id_img im = id_img v) (images r))"
  have m: "m < int (length (images r))"
    using findIndex_range [of _ "images r"] by (simp add: m_def split: option.splits)
  consider (match) "variantImage r \<noteq> None \<and> 0 \<le> m"
    | (reset) "\<not> (variantImage r \<noteq> None \<and> 0 \<le> m)"
        "images r \<noteq> [] \<and> int (length (images r)) \<le> displayIndex r"
    | (keep) "\<not> (variantImage r \<noteq> None \<and> 0 \<le> m)"
        "\<not> (images r \<noteq> [] \<and> int (length (images r)) \<le> displayIndex r)"
    by blast
  then show ?thesis
  proof cases
    case match
    then have "variantImageEffect r r
        = r\<lparr>activeIndex := m, displayIndex := m, pendingIndex := None, phase := Idle\<rparr>"
      unfolding m_def by (rule variantImageEffect_cases(1))
    with match m show ?thesis
      by (simp add: display_valid_def)
  next
    case reset
    then have "variantImageEffect r r = r\<lparr>activeIndex := 0, displayIndex := 0\<rparr>"
      unfolding m_def by (rule variantImageEffect_cases(2))
    with reset show ?thesis
      by (simp add: display_valid_def)
  next
    case keep
    then have "variantImageEffect r r = r"
      unfolding m_def by (rule variantImageEffect_cases(3))
    with keep(2) assms show ?thesis
      by (simp add: display_valid_def) linarith
  qed
qed

lemma target_loaded_item: "target_loaded s p \<Longrightarrow> item_at (images s) p \<noteq> None"
  by (simp add: target_loaded_def split: option.splits)

lemma item_at_range:
  "item_at xs p \<noteq> None \<longleftrightarrow> 0 \<le> p \<and> p < int (length xs)"
  by (simp add: item_at_def)

lemma settled_timer:
  assumes "settled s" and "fadeOutTimer s = Some p"
  shows "pendingIndex s = Some p \<and> p \<noteq> displayIndex s \<and> target_loaded s p"
  using assms by (auto simp: settled_def split: option.splits if_splits)

lemma display_valid_mount: "display_valid (mount base variant)"
proof -
  let ?r = "initial base variant"
  have "display_valid (variantImageEffect ?r ?r)"
    by (rule display_valid_variantImageEffect) (simp add: initial_def)
  moreover have "displayIndex (mount base variant) = displayIndex (variantImageEffect ?r ?r)"
    and "images (mount base variant) = images (variantImageEffect ?r ?r)"
    by (simp_all add: mount_def Let_def rerender_frame transitionEffect_frame)
  ultimately show ?thesis
    unfolding display_valid_def by simp
qed

lemma display_valid_step:
  assumes "display_valid s" and "settled s"
  shows "display_valid (step e s)"
proof (cases e)
  case (SwitchTo i)
  have "displayIndex (step (SwitchTo i) s) = displayIndex s"
    and "images (step (SwitchTo i) s) = images s"
    by (simp_all add: rerender_frame switchTo_frame)
  then show ?thesis
    using assms(1) unfolding SwitchTo display_valid_def by simp
next
  case (MarkLoaded u)
  have "displayIndex (step (MarkLoaded u) s) = displayIndex s"
    and "images (step (MarkLoaded u) s) = images s"
    by (simp_all add: rerender_frame markLoaded_frame)
  then show ?thesis
    using assms(1) unfolding MarkLoaded display_valid_def by simp
next
  case FadeOutFires
  show ?thesis
  proof (cases "fadeOutTimer s")
    case None
    then show ?thesis
      using assms(1) by (simp add: FadeOutFires)
  next
    case (Some p)
    then have "target_loaded s p"
      using settled_timer [OF assms(2)] by simp
    then have "0 \<le> p \<and> p < int (length (images s))"
      using target_loaded_item [of s p] item_at_range [of "images s" p] by simp
    then show ?thesis
      by (simp add: FadeOutFires Some display_valid_def rerender_frame fadeOutCallback_def)
  qed
next
  case FadeInFires
  have "displayIndex (step FadeInFires s) = displayIndex s"
    and "images (step FadeInFires s) = images s"
    by (simp_all add: rerender_frame fadeInCallback_def)
  then show ?thesis
    using assms(1) unfolding FadeInFires display_valid_def by simp
next
  case (NewProps newBase variant)
  define base where "base = (case newBase of None \<Rightarrow> baseImages s | Some b \<Rightarrow> b)"
  define idChanged where "idChanged = (variantId variant \<noteq> variantId (variantImage s))"
  define imagesChanged where "imagesChanged =
            (newBase \<noteq> None \<or>
             (idChanged \<and> \<not> (memo_is_base base (variantImage s) \<and> memo_is_base base variant)))"
  define r where "r = s\<lparr>baseImages := base, variantImage := variant,
                images := (if imagesChanged then images_memo base variant else images s)\<rparr>"
  define c1 where "c1 = (if idChanged \<or> imagesChanged then variantImageEffect r r else r)"
  define c2 where "c2 = (if imagesChanged then transitionEffect r c1 else c1)"
  have np: "newProps newBase variant s = rerender r c2"
    unfolding newProps_def Let_def c2_def c1_def r_def imagesChanged_def idChanged_def base_def
    by (rule refl)
  have r0: "0 \<le> displayIndex r"
    using assms(1) by (simp add: r_def display_valid_def)
  have "display_valid c1"
  proof (cases "idChanged \<or> imagesChanged")
    case True
    then show ?thesis
      using display_valid_variantImageEffect [OF r0] by (simp add: c1_def)
  next
    case False
    then have "displayIndex c1 = displayIndex s" "images c1 = images s"
      by (simp_all add: c1_def r_def)
    then show ?thesis
      using assms(1) unfolding display_valid_def by simp
  qed
  moreover have "displayIndex (rerender r c2) = displayIndex c1" "images (rerender r c2) = images c1"
    by (simp_all add: rerender_frame c2_def transitionEffect_frame)
  ultimately have "display_valid (rerender r c2)"
    unfolding display_valid_def by simp
  then show ?thesis
    by (simp add: NewProps np)
qed

lemma reachable_display_valid: "reachable s \<Longrightarrow> display_valid s"
  by (induction rule: reachable.induct)
    (simp_all add: display_valid_mount display_valid_step reachable_settled)

subsection \<open>Runs of events\<close>

lemma run_Nil: "run [] s = s"
  by (simp add: run_def)

lemma run_snoc: "run (es @ [e]) s = step e (run es s)"
  by (simp add: run_def)

lemma run_Cons: "run (e # es) s = run es (step e s)"
  by (simp add: run_def)

lemma reachable_run: "reachable s \<Longrightarrow> reachable (run es s)"
  by (induction es rule: rev_induct) (simp_all add: run_Nil run_snoc reachable.stepped)

subsection \<open>The displayed image between changes of props\<close>

lemma step_keeps_images:
  "keeps_props e \<Longrightarrow> images (step e s) = images s"
  by (cases e)
    (simp_all add: rerender_frame switchTo_frame markLoaded_frame fadeOutCallback_def
      fadeInCallback_def split: option.splits)

lemma step_grows_loaded:
  "keeps_props e \<Longrightarrow> loadedImages s \<subseteq> loadedImages (step e s)"
  by (cases e)
    (simp_all add: rerender_frame switchTo_frame markLoaded_frame fadeOutCallback_def
      fadeInCallback_def split: option.splits)

lemma target_loaded_mono:
  assumes "images b = images a" and "loadedImages a \<subseteq> loadedImages b"
    and "target_loaded a p"
  shows "target_loaded b p"
  using assms by (auto simp: target_loaded_def split: option.splits)

lemma step_display:
  assumes "settled s" and "keeps_props e"
  shows "displayIndex (step e s) = displayIndex s \<or> shown_loaded (step e s)"
proof (cases e)
  case (SwitchTo i)
  then show ?thesis
    by (simp add: rerender_frame switchTo_frame)
next
  case (MarkLoaded u)
  then show ?thesis
    by (simp add: rerender_frame markLoaded_frame)
next
  case FadeOutFires
  show ?thesis
  proof (cases "fadeOutTimer s")
    case None
    then show ?thesis
      by (simp add: FadeOutFires)
  next
    case (Some p)
    let ?t = "rerender s (fadeOutCallback p s)"
    have t: "step e s = ?t"
      by (simp add: FadeOutFires Some)
    have loaded: "target_loaded s p"
      using settled_timer [OF assms(1) Some] by simp
    have d: "displayIndex ?t = p" and i: "images ?t = images s"
      and l: "loadedImages ?t = loadedImages s"
      by (simp_all add: rerender_frame fadeOutCallback_def)
    have "target_loaded ?t p"
      using loaded i l by (simp add: target_loaded_mono)
    then have "shown_loaded ?t"
      by (simp add: shown_loaded_def d)
    then show ?thesis
      unfolding t by (rule disjI2)
  qed
next
  case FadeInFires
  then show ?thesis
    by (simp add: rerender_frame fadeInCallback_def)
next
  case (NewProps newBase variant)
  with assms(2) show ?thesis
    by simp
qed

text \<open>
  C2 as stated fails. A product with the images a, b, c is mounted without a variant
  image, and the first image shown is a. The selected variant then changes to one
  whose image is c: the variant-image effect sets \<open>displayIndex\<close> to 2 at once, and no
  URL has been marked loaded.
\<close>

theorem display_unloaded_counterexample:
  "displayIndex (mount [pic ''a'', pic ''b'', pic ''c''] None) = 0
   \<and> item_at (images (mount [pic ''a'', pic ''b'', pic ''c''] None)) 0 = Some (pic ''a'')
   \<and> displayIndex (run [NewProps None (Some (pic ''c''))]
        (mount [pic ''a'', pic ''b'', pic ''c''] None)) = 2
   \<and> item_at (images (run [NewProps None (Some (pic ''c''))]
        (mount [pic ''a'', pic ''b'', pic ''c''] None))) 2 = Some (pic ''c'')
   \<and> loadedImages (run [NewProps None (Some (pic ''c''))]
        (mount [pic ''a'', pic ''b'', pic ''c''] None)) = {}
   \<and> \<not> shown_loaded (run [NewProps None (Some (pic ''c''))]
        (mount [pic ''a'', pic ''b'', pic ''c''] None))"
proof -
  have after: "run [NewProps None (Some (pic ''c''))] (mount [pic ''a'', pic ''b'', pic ''c''] None)
    = \<lparr>baseImages = [pic ''a'', pic ''b'', pic ''c''], variantImage = Some (pic ''c''),
       images = [pic ''a'', pic ''b'', pic ''c''],
       activeIndex = 2, displayIndex = 2, pendingIndex = None, phase = Idle,
       loadedImages = {}, fadeOutTimer = None, fadeInTimers = 0, preloads = []\<rparr>"
    by (simp add: run_def example_mount newProps_def variantId_def memo_is_base_def
        variantImageEffect_def rerender_eq transitionEffect_def deps_def pic_fields Let_def)
  show ?thesis
    unfolding after
    by (simp add: example_mount example_items shown_loaded_def target_loaded_def)
qed

text \<open>
  C2, amended. From any reachable state, through any sequence of \<open>switchTo\<close> calls, load
  completions and timer firings (no change of props), \<open>displayIndex\<close> either still has
  the value it had at the start or points at an image whose 800-wide URL is in
  \<open>loadedImages\<close>. (A change of the variant image sets \<open>displayIndex\<close> to the position
  of that image directly, loaded or not.)
\<close>

theorem display_moves_to_loaded_only:
  assumes "reachable s" and "\<forall>e \<in> set es. keeps_props e"
  shows "displayIndex (run es s) = displayIndex s \<or> shown_loaded (run es s)"
  using assms(2)
proof (induction es rule: rev_induct)
  case Nil
  then show ?case
    by (simp add: run_Nil)
next
  case (snoc e es)
  let ?t = "run es s"
  have keeps: "keeps_props e" and rest: "\<forall>e \<in> set es. keeps_props e"
    using snoc.prems by simp_all
  have st: "settled ?t"
    using assms(1) by (simp add: reachable_run reachable_settled)
  have next_state: "run (es @ [e]) s = step e ?t"
    by (rule run_snoc)
  from step_display [OF st keeps]
  show ?case
  proof
    assume same: "displayIndex (step e ?t) = displayIndex ?t"
    from snoc.IH [OF rest] show ?thesis
    proof
      assume "displayIndex ?t = displayIndex s"
      with same show ?thesis
        by (simp add: next_state)
    next
      assume "shown_loaded ?t"
      then have "target_loaded ?t (displayIndex ?t)"
        by (simp add: shown_loaded_def)
      then have "target_loaded (step e ?t) (displayIndex ?t)"
        using step_keeps_images [OF keeps, of ?t] step_grows_loaded [OF keeps, of ?t]
        by (rule_tac target_loaded_mono) simp_all
      then show ?thesis
        by (simp add: next_state shown_loaded_def same)
    qed
  next
    assume "shown_loaded (step e ?t)"
    then show ?thesis
      by (simp add: next_state)
  qed
qed

lemma example_state_fields:
  "images (example_state a d p ph l fo fi pre) = [pic ''a'', pic ''b'', pic ''c'']"
  "activeIndex (example_state a d p ph l fo fi pre) = a"
  "displayIndex (example_state a d p ph l fo fi pre) = d"
  "pendingIndex (example_state a d p ph l fo fi pre) = p"
  "phase (example_state a d p ph l fo fi pre) = ph"
  "loadedImages (example_state a d p ph l fo fi pre) = l"
  "fadeOutTimer (example_state a d p ph l fo fi pre) = fo"
  "fadeInTimers (example_state a d p ph l fo fi pre) = fi"
  "preloads (example_state a d p ph l fo fi pre) = pre"
  by (simp_all add: example_state_def)

lemma example_mounted:
  "mount [pic ''a'', pic ''b'', pic ''c''] None = example_state 0 0 None Idle {} None 0 []"
  by (simp add: example_mount example_state_def)

text \<open>The user asks for image b; it loads; the fade-out timer fires.\<close>

lemma example_switch:
  "step (SwitchTo 1) (example_state 0 0 None Idle {} None 0 [])
     = example_state 1 0 (Some 1) Idle {} None 0 [''b.jpg?width=800'']"
  by (simp add: example_state_def switchTo_def preloadImage_def example_items example_urls
      pic_fields rerender_eq transitionEffect_def deps_def Let_def)

lemma example_load:
  "step (MarkLoaded ''b.jpg?width=800'')
     (example_state 1 0 (Some 1) Idle {} None 0 [''b.jpg?width=800''])
     = example_state 1 0 (Some 1) FadeOut {''b.jpg?width=800''} (Some 1) 0 [''b.jpg?width=800'']"
  by (simp add: example_state_def markLoaded_def example_items example_urls
      pic_fields rerender_eq transitionEffect_def deps_def Let_def)

lemma example_swap:
  "step FadeOutFires
     (example_state 1 0 (Some 1) FadeOut {''b.jpg?width=800''} (Some 1) 0 [''b.jpg?width=800''])
     = example_state 1 1 None FadeIn {''b.jpg?width=800''} None 1 [''b.jpg?width=800'']"
  by (simp add: example_state_def fadeOutCallback_def
      rerender_eq transitionEffect_def deps_def Let_def)

lemma example_run_swap:
  "run [SwitchTo 1, MarkLoaded ''b.jpg?width=800'', FadeOutFires]
     (mount [pic ''a'', pic ''b'', pic ''c''] None)
   = example_state 1 1 None FadeIn {''b.jpg?width=800''} None 1 [''b.jpg?width=800'']"
  by (simp only: run_Cons run_Nil example_mounted example_switch example_load example_swap)

theorem display_moves_to_loaded_only_witness:
  "reachable (mount [pic ''a'', pic ''b'', pic ''c''] None)
   \<and> keeps_props (SwitchTo 1) \<and> keeps_props (MarkLoaded ''b.jpg?width=800'')
   \<and> keeps_props FadeOutFires
   \<and> (displayIndex (run [SwitchTo 1, MarkLoaded ''b.jpg?width=800'', FadeOutFires]
          (mount [pic ''a'', pic ''b'', pic ''c''] None))
        = displayIndex (mount [pic ''a'', pic ''b'', pic ''c''] None)
      \<or> shown_loaded (run [SwitchTo 1, MarkLoaded ''b.jpg?width=800'', FadeOutFires]
          (mount [pic ''a'', pic ''b'', pic ''c''] None)))
   \<and> displayIndex (run [SwitchTo 1, MarkLoaded ''b.jpg?width=800'', FadeOutFires]
          (mount [pic ''a'', pic ''b'', pic ''c''] None)) = 1"
proof -
  have r: "reachable (mount [pic ''a'', pic ''b'', pic ''c''] None)"
    by (rule reachable.mounted)
  have k: "\<forall>e \<in> set [SwitchTo 1, MarkLoaded ''b.jpg?width=800'', FadeOutFires]. keeps_props e"
    by simp
  note t = display_moves_to_loaded_only [OF r k]
  have d: "displayIndex (run [SwitchTo 1, MarkLoaded ''b.jpg?width=800'', FadeOutFires]
          (mount [pic ''a'', pic ''b'', pic ''c''] None)) = 1"
    by (simp add: example_run_swap example_state_fields)
  show ?thesis
    using r t d by simp
qed

subsection \<open>Switching to a loaded image\<close>

lemma switchTo_no_preload:
  assumes "images s \<noteq> []" and "i \<noteq> activeIndex s"
    and "target_loaded s i \<or> item_at (images s) i = None"
  shows "switchTo i s = s\<lparr>activeIndex := i, pendingIndex := Some i\<rparr>"
  using assms
  by (auto simp: switchTo_def target_loaded_def preloadImage_def Let_def split: option.splits)

lemma transitionEffect_idle:
  assumes "fadeOutTimer c = None"
    and "pendingIndex c = None
       \<or> (\<exists>p. pendingIndex c = Some p \<and> p \<noteq> displayIndex c \<and> \<not> target_loaded c p)"
  shows "transitionEffect c c = c"
proof -
  have "c\<lparr>fadeOutTimer := None\<rparr> = c"
    using assms(1) by (metis carousel.surjective carousel.update_convs(9))
  then show ?thesis
    using assms(2) by (auto simp: transitionEffect_None transitionEffect_wait)
qed

text \<open>
  C6 as stated fails for an index that is the displayed one. With a loaded, the user
  asks for b, which is not loaded: \<open>activeIndex\<close> is 1 and \<open>displayIndex\<close> stays 0. A
  call \<open>switchTo(0)\<close> then meets every condition of the claim, and the transition
  effect only clears \<open>pendingIndex\<close>: the phase stays idle and no timer is scheduled.
\<close>

theorem switchTo_displayed_counterexample:
  "images (run [MarkLoaded ''a.jpg?width=800'', SwitchTo 1]
      (mount [pic ''a'', pic ''b'', pic ''c''] None)) \<noteq> []
   \<and> 0 \<noteq> activeIndex (run [MarkLoaded ''a.jpg?width=800'', SwitchTo 1]
      (mount [pic ''a'', pic ''b'', pic ''c''] None))
   \<and> target_loaded (run [MarkLoaded ''a.jpg?width=800'', SwitchTo 1]
      (mount [pic ''a'', pic ''b'', pic ''c''] None)) 0
   \<and> phase (run [MarkLoaded ''a.jpg?width=800'', SwitchTo 1]
      (mount [pic ''a'', pic ''b'', pic ''c''] None)) = Idle
   \<and> phase (run [MarkLoaded ''a.jpg?width=800'', SwitchTo 1, SwitchTo 0]
      (mount [pic ''a'', pic ''b'', pic ''c''] None)) = Idle
   \<and> fadeOutTimer (run [MarkLoaded ''a.jpg?width=800'', SwitchTo 1, SwitchTo 0]
      (mount [pic ''a'', pic ''b'', pic ''c''] None)) = None
   \<and> fadeInTimers (run [MarkLoaded ''a.jpg?width=800'', SwitchTo 1, SwitchTo 0]
      (mount [pic ''a'', pic ''b'', pic ''c''] None)) = 0
   \<and> phase (run [MarkLoaded ''a.jpg?width=800'', SwitchTo 1, SwitchTo 0,
               FadeOutFires, FadeInFires]
      (mount [pic ''a'', pic ''b'', pic ''c''] None)) = Idle"
proof -
  have s1: "step (MarkLoaded ''a.jpg?width=800'') (example_state 0 0 None Idle {} None 0 [])
      = example_state 0 0 None Idle {''a.jpg?width=800''} None 0 []"
    by (simp add: example_state_def markLoaded_def rerender_eq transitionEffect_def deps_def
        Let_def)
  have s2: "step (SwitchTo 1) (example_state 0 0 None Idle {''a.jpg?width=800''} None 0 [])
      = example_state 1 0 (Some 1) Idle {''a.jpg?width=800''} None 0 [''b.jpg?width=800'']"
    by (simp add: example_state_def switchTo_def preloadImage_def example_items example_urls
        pic_fields rerender_eq transitionEffect_def deps_def Let_def)
  have s3: "step (SwitchTo 0)
        (example_state 1 0 (Some 1) Idle {''a.jpg?width=800''} None 0 [''b.jpg?width=800''])
      = example_state 0 0 None Idle {''a.jpg?width=800''} None 0 [''b.jpg?width=800'']"
    by (simp add: example_state_def switchTo_def preloadImage_def example_items example_urls
        pic_fields rerender_eq transitionEffect_def deps_def Let_def)
  have s4: "step FadeOutFires
        (example_state 0 0 None Idle {''a.jpg?width=800''} None 0 [''b.jpg?width=800''])
      = example_state 0 0 None Idle {''a.jpg?width=800''} None 0 [''b.jpg?width=800'']"
    by (simp add: example_state_def)
  have s5: "step FadeInFires
        (example_state 0 0 None Idle {''a.jpg?width=800''} None 0 [''b.jpg?width=800''])
      = example_state 0 0 None Idle {''a.jpg?width=800''} None 0 [''b.jpg?width=800'']"
    by (simp add: example_state_def)
  have before: "run [MarkLoaded ''a.jpg?width=800'', SwitchTo 1]
      (mount [pic ''a'', pic ''b'', pic ''c''] None)
      = example_state 1 0 (Some 1) Idle {''a.jpg?width=800''} None 0 [''b.jpg?width=800'']"
    by (simp only: run_Cons run_Nil example_mounted s1 s2)
  have after: "run [MarkLoaded ''a.jpg?width=800'', SwitchTo 1, SwitchTo 0]
      (mount [pic ''a'', pic ''b'', pic ''c''] None)
      = example_state 0 0 None Idle {''a.jpg?width=800''} None 0 [''b.jpg?width=800'']"
    by (simp only: run_Cons run_Nil example_mounted s1 s2 s3)
  have later: "run [MarkLoaded ''a.jpg?width=800'', SwitchTo 1, SwitchTo 0,
               FadeOutFires, FadeInFires]
      (mount [pic ''a'', pic ''b'', pic ''c''] None)
      = example_state 0 0 None Idle {''a.jpg?width=800''} None 0 [''b.jpg?width=800'']"
    by (simp only: run_Cons run_Nil example_mounted s1 s2 s3 s4 s5)
  show ?thesis
    unfolding before after later
    by (simp add: example_state_fields target_loaded_def example_items pic_fields example_urls)
qed

text \<open>
  C6, amended. In a reachable state with phase idle and no fade timer scheduled, for an
  index \<open>i\<close> that differs from \<open>activeIndex\<close> and from \<open>displayIndex\<close> and whose image
  exists with its 800-wide URL in \<open>loadedImages\<close>: \<open>switchTo(i)\<close> sets \<open>activeIndex\<close> to
  \<open>i\<close> in the call; the render that follows enters fade-out and schedules the fade-out
  timer, with \<open>displayIndex\<close> unchanged; when that timer fires, \<open>displayIndex\<close> becomes
  \<open>i\<close> and the phase is fade-in; when the fade-in timer fires, the phase is idle again
  and \<open>pendingIndex\<close> is cleared.
\<close>

theorem switchTo_loaded_transition:
  assumes "reachable s" and "phase s = Idle"
    and "fadeOutTimer s = None" and "fadeInTimers s = 0"
    and "i \<noteq> activeIndex s" and "i \<noteq> displayIndex s" and "target_loaded s i"
  shows "activeIndex (switchTo i s) = i
       \<and> (let s1 = step (SwitchTo i) s;
               s2 = step FadeOutFires s1;
               s3 = step FadeInFires s2
          in activeIndex s1 = i \<and> displayIndex s1 = displayIndex s
             \<and> phase s1 = FadeOut \<and> fadeOutTimer s1 = Some i
             \<and> displayIndex s2 = i \<and> phase s2 = FadeIn \<and> fadeInTimers s2 = 1
             \<and> displayIndex s3 = i \<and> phase s3 = Idle \<and> activeIndex s3 = i
             \<and> pendingIndex s3 = None \<and> fadeOutTimer s3 = None \<and> fadeInTimers s3 = 0)"
proof -
  have st: "settled s"
    using assms(1) by (rule reachable_settled)
  have "0 \<le> i \<and> i < int (length (images s))"
    using target_loaded_item [OF assms(7)] item_at_range [of "images s" i] by simp
  then have nonempty: "images s \<noteq> []"
    by auto
  define cur where "cur = s\<lparr>activeIndex := i, pendingIndex := Some i\<rparr>"
  have sw: "switchTo i s = cur"
    unfolding cur_def using nonempty assms(5) assms(7) by (simp add: switchTo_no_preload)
  have "pendingIndex s \<noteq> Some i"
  proof
    assume "pendingIndex s = Some i"
    with st assms(6,7) have "fadeOutTimer s = Some i"
      by (simp add: settled_def)
    with assms(3) show False
      by simp
  qed
  then have changed: "deps s \<noteq> deps cur"
    by (simp add: deps_def cur_def)
  have loaded: "target_loaded cur i"
    using assms(7) target_loaded_cong [of cur s i] by (simp add: cur_def)
  define s1 where "s1 = cur\<lparr>fadeOutTimer := Some i, phase := FadeOut\<rparr>"
  have "transitionEffect cur cur = s1"
    unfolding s1_def
    by (rule transitionEffect_go) (use assms(6) loaded in \<open>simp_all add: cur_def\<close>)
  with changed have e1: "step (SwitchTo i) s = s1"
    by (simp add: sw rerender_eq)
  define cur2 where "cur2 = fadeOutCallback i s1"
  have changed2: "deps s1 \<noteq> deps cur2"
    using assms(6) by (simp add: deps_def cur2_def fadeOutCallback_def s1_def cur_def)
  define s2 where "s2 = cur2\<lparr>fadeOutTimer := None, pendingIndex := None\<rparr>"
  have "transitionEffect cur2 cur2 = s2"
    unfolding s2_def
    by (rule transitionEffect_same) (simp add: cur2_def fadeOutCallback_def s1_def cur_def)
  with changed2 have e2: "step FadeOutFires s1 = s2"
    by (simp add: s1_def cur2_def [symmetric] rerender_eq) (simp add: s1_def [symmetric] cur2_def)
  define s3 where "s3 = fadeInCallback s2"
  have timers2: "fadeInTimers s2 = 1"
    using assms(4) by (simp add: s2_def cur2_def fadeOutCallback_def s1_def cur_def)
  have "deps s2 = deps s3"
    by (simp add: deps_def s3_def fadeInCallback_def s2_def)
  then have e3: "step FadeInFires s2 = s3"
    using timers2 by (simp add: rerender_eq s3_def)
  have "activeIndex (switchTo i s) = i"
    by (simp add: sw cur_def)
  moreover have "activeIndex s1 = i \<and> displayIndex s1 = displayIndex s
             \<and> phase s1 = FadeOut \<and> fadeOutTimer s1 = Some i"
    by (simp add: s1_def cur_def)
  moreover have "displayIndex s2 = i \<and> phase s2 = FadeIn \<and> fadeInTimers s2 = 1"
    using timers2 by (simp add: s2_def cur2_def fadeOutCallback_def)
  moreover have "displayIndex s3 = i \<and> phase s3 = Idle \<and> activeIndex s3 = i
             \<and> pendingIndex s3 = None \<and> fadeOutTimer s3 = None \<and> fadeInTimers s3 = 0"
    using timers2
    by (simp add: s3_def fadeInCallback_def) (simp add: s2_def cur2_def fadeOutCallback_def s1_def cur_def)
  ultimately show ?thesis
    unfolding Let_def e1 e2 e3 by simp
qed

lemma example_preloaded:
  "step (MarkLoaded ''b.jpg?width=800'') (mount [pic ''a'', pic ''b'', pic ''c''] None)
     = example_state 0 0 None Idle {''b.jpg?width=800''} None 0 []"
  unfolding example_mounted
  by (simp add: example_state_def markLoaded_def rerender_eq transitionEffect_def deps_def
      Let_def)

theorem switchTo_loaded_transition_witness:
  "reachable (step (MarkLoaded ''b.jpg?width=800'') (mount [pic ''a'', pic ''b'', pic ''c''] None))
   \<and> phase (step (MarkLoaded ''b.jpg?width=800'')
        (mount [pic ''a'', pic ''b'', pic ''c''] None)) = Idle
   \<and> fadeOutTimer (step (MarkLoaded ''b.jpg?width=800'')
        (mount [pic ''a'', pic ''b'', pic ''c''] None)) = None
   \<and> fadeInTimers (step (MarkLoaded ''b.jpg?width=800'')
        (mount [pic ''a'', pic ''b'', pic ''c''] None)) = 0
   \<and> 1 \<noteq> activeIndex (step (MarkLoaded ''b.jpg?width=800'')
        (mount [pic ''a'', pic ''b'', pic ''c''] None))
   \<and> 1 \<noteq> displayIndex (step (MarkLoaded ''b.jpg?width=800'')
        (mount [pic ''a'', pic ''b'', pic ''c''] None))
   \<and> target_loaded (step (MarkLoaded ''b.jpg?width=800'')
        (mount [pic ''a'', pic ''b'', pic ''c''] None)) 1
   \<and> activeIndex (switchTo 1 (step (MarkLoaded ''b.jpg?width=800'')
        (mount [pic ''a'', pic ''b'', pic ''c''] None))) = 1
   \<and> phase (step (SwitchTo 1) (step (MarkLoaded ''b.jpg?width=800'')
        (mount [pic ''a'', pic ''b'', pic ''c''] None))) = FadeOut
   \<and> displayIndex (step FadeOutFires (step (SwitchTo 1) (step (MarkLoaded ''b.jpg?width=800'')
        (mount [pic ''a'', pic ''b'', pic ''c''] None)))) = 1
   \<and> phase (step FadeOutFires (step (SwitchTo 1) (step (MarkLoaded ''b.jpg?width=800'')
        (mount [pic ''a'', pic ''b'', pic ''c''] None)))) = FadeIn
   \<and> phase (step FadeInFires (step FadeOutFires (step (SwitchTo 1)
        (step (MarkLoaded ''b.jpg?width=800'')
        (mount [pic ''a'', pic ''b'', pic ''c''] None))))) = Idle"
proof -
  let ?s = "step (MarkLoaded ''b.jpg?width=800'') (mount [pic ''a'', pic ''b'', pic ''c''] None)"
  have r: "reachable ?s"
    by (intro reachable.stepped reachable.mounted)
  have h: "phase ?s = Idle" "fadeOutTimer ?s = None" "fadeInTimers ?s = 0"
    "1 \<noteq> activeIndex ?s" "1 \<noteq> displayIndex ?s"
    unfolding example_preloaded by (simp_all add: example_state_fields)
  have l: "target_loaded ?s 1"
    unfolding example_preloaded
    by (simp add: target_loaded_def example_state_fields example_items pic_fields example_urls)
  note t = switchTo_loaded_transition [OF r h l, unfolded Let_def]
  show ?thesis
    using r h l t by blast
qed

subsection \<open>Switching to a position without an image\<close>

text \<open>
  What holds after \<open>switchTo(i)\<close> for an absent image, and after every later passive
  event: no fade-out timer, the image list and \<open>displayIndex\<close> of the state \<open>s\<close> before
  the call, and a phase that is the one of \<open>s\<close> or, once a fade-in timer that was
  scheduled in \<open>s\<close> has fired, idle.
\<close>

lemma absent_step:
  assumes item: "item_at (images s) i = None" and other: "i \<noteq> displayIndex s"
    and pas: "is_passive e"
    and timer: "fadeOutTimer t = None"
    and imgs: "images t = images s"
    and disp: "displayIndex t = displayIndex s"
    and pend: "pendingIndex t = None \<or> pendingIndex t = Some i"
    and ph: "phase t = phase s \<or> phase t = Idle"
    and quiet: "fadeInTimers s = 0 \<longrightarrow> fadeInTimers t = 0 \<and> phase t = phase s"
  shows "fadeOutTimer (step e t) = None \<and> images (step e t) = images s
       \<and> displayIndex (step e t) = displayIndex s
       \<and> (pendingIndex (step e t) = None \<or> pendingIndex (step e t) = Some i)
       \<and> (phase (step e t) = phase s \<or> phase (step e t) = Idle)
       \<and> (fadeInTimers s = 0 \<longrightarrow> fadeInTimers (step e t) = 0 \<and> phase (step e t) = phase s)"
proof (cases e)
  case (SwitchTo j)
  with pas show ?thesis
    by simp
next
  case (NewProps newBase variant)
  with pas show ?thesis
    by simp
next
  case FadeOutFires
  then have "step e t = t"
    using timer by simp
  then show ?thesis
    using timer imgs disp pend ph quiet by simp
next
  case (MarkLoaded u)
  define cur where "cur = markLoaded u t"
  have f: "fadeOutTimer cur = None" "images cur = images s" "displayIndex cur = displayIndex s"
    "pendingIndex cur = pendingIndex t" "phase cur = phase t" "fadeInTimers cur = fadeInTimers t"
    using timer imgs disp by (simp_all add: cur_def markLoaded_frame)
  have "\<not> target_loaded cur i"
    using item f(2) by (simp add: target_loaded_def)
  then have "transitionEffect cur cur = cur"
    using f pend other by (intro transitionEffect_idle) auto
  then have "step e t = cur"
    by (simp add: MarkLoaded cur_def rerender_eq)
  then show ?thesis
    using f pend ph quiet by simp
next
  case FadeInFires
  show ?thesis
  proof (cases "fadeInTimers t = 0")
    case True
    then have "step e t = t"
      by (simp add: FadeInFires)
    then show ?thesis
      using timer imgs disp pend ph quiet by simp
  next
    case False
    define cur where "cur = fadeInCallback t"
    have f: "fadeOutTimer cur = None" "images cur = images s" "displayIndex cur = displayIndex s"
      "pendingIndex cur = None" "phase cur = Idle"
      using timer imgs disp by (simp_all add: cur_def fadeInCallback_def)
    have "transitionEffect cur cur = cur"
      using f by (intro transitionEffect_idle) auto
    then have "step e t = cur"
      using False by (simp add: FadeInFires cur_def rerender_eq)
    moreover have "fadeInTimers s \<noteq> 0"
      using False quiet by auto
    ultimately show ?thesis
      using f by simp
  qed
qed

text \<open>
  C10 as stated fails for the phase. The user switches to b, b loads, and the fade-out
  timer fires: the phase is fade-in and its fade-in timer is scheduled. A call
  \<open>switchTo(5)\<close>, where there is no image, leaves the phase at fade-in; the fade-in
  timer then fires and sets the phase to idle (and clears \<open>pendingIndex\<close>).
\<close>

theorem switchTo_absent_counterexample:
  "images (run [SwitchTo 1, MarkLoaded ''b.jpg?width=800'', FadeOutFires]
      (mount [pic ''a'', pic ''b'', pic ''c''] None)) \<noteq> []
   \<and> 5 \<noteq> activeIndex (run [SwitchTo 1, MarkLoaded ''b.jpg?width=800'', FadeOutFires]
      (mount [pic ''a'', pic ''b'', pic ''c''] None))
   \<and> item_at (images (run [SwitchTo 1, MarkLoaded ''b.jpg?width=800'', FadeOutFires]
      (mount [pic ''a'', pic ''b'', pic ''c''] None))) 5 = None
   \<and> phase (run [SwitchTo 1, MarkLoaded ''b.jpg?width=800'', FadeOutFires, SwitchTo 5]
      (mount [pic ''a'', pic ''b'', pic ''c''] None)) = FadeIn
   \<and> pendingIndex (run [SwitchTo 1, MarkLoaded ''b.jpg?width=800'', FadeOutFires, SwitchTo 5]
      (mount [pic ''a'', pic ''b'', pic ''c''] None)) = Some 5
   \<and> phase (run [SwitchTo 1, MarkLoaded ''b.jpg?width=800'', FadeOutFires, SwitchTo 5,
               FadeInFires]
      (mount [pic ''a'', pic ''b'', pic ''c''] None)) = Idle
   \<and> pendingIndex (run [SwitchTo 1, MarkLoaded ''b.jpg?width=800'', FadeOutFires, SwitchTo 5,
               FadeInFires]
      (mount [pic ''a'', pic ''b'', pic ''c''] None)) = None"
proof -
  have s4: "step (SwitchTo 5)
        (example_state 1 1 None FadeIn {''b.jpg?width=800''} None 1 [''b.jpg?width=800''])
      = example_state 5 1 (Some 5) FadeIn {''b.jpg?width=800''} None 1 [''b.jpg?width=800'']"
    by (simp add: example_state_def switchTo_def example_items
        rerender_eq transitionEffect_def deps_def Let_def)
  have s5: "step FadeInFires
        (example_state 5 1 (Some 5) FadeIn {''b.jpg?width=800''} None 1 [''b.jpg?width=800''])
      = example_state 5 1 None Idle {''b.jpg?width=800''} None 0 [''b.jpg?width=800'']"
    by (simp add: example_state_def fadeInCallback_def
        rerender_eq transitionEffect_def deps_def Let_def)
  have before: "run [SwitchTo 1, MarkLoaded ''b.jpg?width=800'', FadeOutFires]
      (mount [pic ''a'', pic ''b'', pic ''c''] None)
      = example_state 1 1 None FadeIn {''b.jpg?width=800''} None 1 [''b.jpg?width=800'']"
    by (rule example_run_swap)
  have after: "run [SwitchTo 1, MarkLoaded ''b.jpg?width=800'', FadeOutFires, SwitchTo 5]
      (mount [pic ''a'', pic ''b'', pic ''c''] None)
      = example_state 5 1 (Some 5) FadeIn {''b.jpg?width=800''} None 1 [''b.jpg?width=800'']"
    by (simp only: run_Cons run_Nil example_mounted example_switch example_load example_swap s4)
  have later: "run [SwitchTo 1, MarkLoaded ''b.jpg?width=800'', FadeOutFires, SwitchTo 5,
               FadeInFires]
      (mount [pic ''a'', pic ''b'', pic ''c''] None)
      = example_state 5 1 None Idle {''b.jpg?width=800''} None 0 [''b.jpg?width=800'']"
    by (simp only: run_Cons run_Nil example_mounted example_switch example_load example_swap
        s4 s5)
  show ?thesis
    unfolding before after later
    by (simp add: example_state_fields example_items)
qed

text \<open>
  C10, amended. In a reachable state with a non-empty image list, \<open>switchTo(i)\<close> for an
  index \<open>i\<close> that differs from \<open>activeIndex\<close> and has no image sets \<open>activeIndex\<close> and
  \<open>pendingIndex\<close> to \<open>i\<close>, starts no preload and leaves \<open>displayIndex\<close> and the phase as
  they are. Through every later sequence of load completions and timer firings,
  \<open>displayIndex\<close> keeps its value; the phase keeps its value when no fade-in timer was
  scheduled at the call, and otherwise it keeps its value or becomes idle (the firing
  of that earlier timer).
\<close>

theorem switchTo_absent_image:
  assumes "reachable s" and "images s \<noteq> []" and "i \<noteq> activeIndex s"
    and "item_at (images s) i = None" and "\<forall>e \<in> set es. is_passive e"
  shows "activeIndex (step (SwitchTo i) s) = i
       \<and> pendingIndex (step (SwitchTo i) s) = Some i
       \<and> preloads (step (SwitchTo i) s) = preloads s
       \<and> displayIndex (step (SwitchTo i) s) = displayIndex s
       \<and> phase (step (SwitchTo i) s) = phase s
       \<and> displayIndex (run es (step (SwitchTo i) s)) = displayIndex s
       \<and> (phase (run es (step (SwitchTo i) s)) = phase s
          \<or> phase (run es (step (SwitchTo i) s)) = Idle)
       \<and> (fadeInTimers s = 0 \<longrightarrow> phase (run es (step (SwitchTo i) s)) = phase s)"
proof -
  have st: "settled s" and dv: "display_valid s"
    using assms(1) by (simp_all add: reachable_settled reachable_display_valid)
  have "item_at (images s) (displayIndex s) \<noteq> None"
    using dv assms(2) by (simp add: display_valid_def item_at_def)
  with assms(4) have other: "i \<noteq> displayIndex s"
    by auto
  define cur where "cur = s\<lparr>activeIndex := i, pendingIndex := Some i\<rparr>"
  have sw: "switchTo i s = cur"
    unfolding cur_def using assms(2,3,4) by (simp add: switchTo_no_preload)
  have absent: "\<not> target_loaded cur i" "\<not> target_loaded s i"
    using assms(4) by (simp_all add: target_loaded_def cur_def)
  define s1 where "s1 = cur\<lparr>fadeOutTimer := None\<rparr>"
  have "rerender s cur = s1"
  proof (cases "deps s = deps cur")
    case True
    then have "pendingIndex s = Some i"
      by (simp add: deps_def cur_def)
    with st absent(2) have "fadeOutTimer s = None"
      by (simp add: settled_def)
    then have "fadeOutTimer cur = None"
      by (simp add: cur_def)
    then have "s1 = cur"
      unfolding s1_def by (metis carousel.surjective carousel.update_convs(9))
    with True show ?thesis
      by (simp add: rerender_eq)
  next
    case False
    have "transitionEffect cur cur = s1"
      unfolding s1_def
      by (rule transitionEffect_wait [of _ i]) (use other absent(1) in \<open>simp_all add: cur_def\<close>)
    with False show ?thesis
      by (simp add: rerender_eq)
  qed
  then have e1: "step (SwitchTo i) s = s1"
    by (simp add: sw)
  have first: "activeIndex s1 = i" "pendingIndex s1 = Some i" "preloads s1 = preloads s"
    "displayIndex s1 = displayIndex s" "phase s1 = phase s" "fadeOutTimer s1 = None"
    "images s1 = images s" "fadeInTimers s1 = fadeInTimers s"
    by (simp_all add: s1_def cur_def)
  have later: "fadeOutTimer (run es s1) = None \<and> images (run es s1) = images s
       \<and> displayIndex (run es s1) = displayIndex s
       \<and> (pendingIndex (run es s1) = None \<or> pendingIndex (run es s1) = Some i)
       \<and> (phase (run es s1) = phase s \<or> phase (run es s1) = Idle)
       \<and> (fadeInTimers s = 0 \<longrightarrow> fadeInTimers (run es s1) = 0 \<and> phase (run es s1) = phase s)"
    using assms(5)
  proof (induction es rule: rev_induct)
    case Nil
    then show ?case
      using first by (simp add: run_Nil)
  next
    case (snoc e es)
    have pas: "is_passive e" and rest: "\<forall>e \<in> set es. is_passive e"
      using snoc.prems by simp_all
    note ih = snoc.IH [OF rest]
    show ?case
      unfolding run_snoc
      by (rule absent_step [OF assms(4) other pas]) (use ih in blast)+
  qed
  show ?thesis
    unfolding e1 using first later by blast
qed

theorem switchTo_absent_image_witness:
  "reachable (mount [pic ''a'', pic ''b'', pic ''c''] None)
   \<and> images (mount [pic ''a'', pic ''b'', pic ''c''] None) \<noteq> []
   \<and> 5 \<noteq> activeIndex (mount [pic ''a'', pic ''b'', pic ''c''] None)
   \<and> item_at (images (mount [pic ''a'', pic ''b'', pic ''c''] None)) 5 = None
   \<and> is_passive (MarkLoaded ''b.jpg?width=800'') \<and> is_passive FadeOutFires
   \<and> is_passive FadeInFires
   \<and> fadeInTimers (mount [pic ''a'', pic ''b'', pic ''c''] None) = 0
   \<and> activeIndex (step (SwitchTo 5) (mount [pic ''a'', pic ''b'', pic ''c''] None)) = 5
   \<and> pendingIndex (step (SwitchTo 5) (mount [pic ''a'', pic ''b'', pic ''c''] None)) = Some 5
   \<and> preloads (step (SwitchTo 5) (mount [pic ''a'', pic ''b'', pic ''c''] None))
       = preloads (mount [pic ''a'', pic ''b'', pic ''c''] None)
   \<and> displayIndex (run [MarkLoaded ''b.jpg?width=800'', FadeOutFires, FadeInFires]
        (step (SwitchTo 5) (mount [pic ''a'', pic ''b'', pic ''c''] None)))
       = displayIndex (mount [pic ''a'', pic ''b'', pic ''c''] None)
   \<and> phase (run [MarkLoaded ''b.jpg?width=800'', FadeOutFires, FadeInFires]
        (step (SwitchTo 5) (mount [pic ''a'', pic ''b'', pic ''c''] None)))
       = phase (mount [pic ''a'', pic ''b'', pic ''c''] None)"
proof -
  let ?s = "mount [pic ''a'', pic ''b'', pic ''c''] None"
  have r: "reachable ?s"
    by (rule reachable.mounted)
  have h: "images ?s \<noteq> []" "5 \<noteq> activeIndex ?s" "item_at (images ?s) 5 = None"
    unfolding example_mounted by (simp_all add: example_state_fields example_items)
  have q: "fadeInTimers ?s = 0"
    unfolding example_mounted by (simp add: example_state_fields)
  have k: "\<forall>e \<in> set [MarkLoaded ''b.jpg?width=800'', FadeOutFires, FadeInFires]. is_passive e"
    by simp
  have p: "is_passive (MarkLoaded ''b.jpg?width=800'')" "is_passive FadeOutFires"
    "is_passive FadeInFires"
    by simp_all
  note t = switchTo_absent_image [OF r h k]
  show ?thesis
    using r h p q t by blast
qed

end
